theory Spec2Isabelle
  imports Main "HOL-Library.Word"
begin

section \<open>The transfer hub of kmo: data model\<close>

text \<open>
  The embedding follows \<^verbatim>\<open>kmo/kmo_comm.h\<close> and \<^verbatim>\<open>kmo/kmo_comm.c\<close>. A transfer is a C
  struct that the caller owns and the hub reaches through a pointer, so the state is an
  explicit store from addresses to transfer structs, next to the hub's table of member
  addresses. The clock, \<^verbatim>\<open>select()\<close> and the driver's functions are the outside world: every
  pass of the loop in \<^verbatim>\<open>kmo_transfer_hub_wait\<close> reads them from a script of per-pass
  environments, and everything the hub asks of the outside world is logged as an event.
  Assertions are compiled in: a failed \<^verbatim>\<open>assert\<close> ends the run. A descriptor is an integer,
  and a descriptor set is the set of the descriptors put into it (\<^verbatim>\<open>FD_SET\<close>, \<^verbatim>\<open>FD_ISSET\<close>
  on descriptors within the range of \<^verbatim>\<open>fd_set\<close>).
\<close>

datatype error = AssertFailed | FatalError

text \<open>The anonymous enum of status codes.\<close>

datatype trans_status =
    KMO_COMM_TRANS_NONE
  | KMO_COMM_TRANS_PENDING
  | KMO_COMM_TRANS_COMPLETED
  | KMO_COMM_TRANS_ERROR

text \<open>
  \<^verbatim>\<open>struct timeval\<close> comes from the system headers. Its two fields are signed and at least
  as wide as \<^verbatim>\<open>long\<close> (the comment in \<^verbatim>\<open>kmo_transfer_hub_add\<close> notes that \<^verbatim>\<open>long\<close> is wider
  than four bytes here), so they are integers.
\<close>

record timeval =
  tv_sec :: int
  tv_usec :: int

text \<open>
  \<^verbatim>\<open>struct kmo_comm_driver\<close>: three function pointers. A pointer is an address, \<open>0\<close> is
  \<^verbatim>\<open>NULL\<close>.
\<close>

record kmo_comm_driver =
  read_data :: nat
  write_data :: nat
  disconnect :: nat

text \<open>
  \<^verbatim>\<open>struct kmo_data_transfer\<close>. The four \<^verbatim>\<open>uint32_t\<close> fields are 32-bit words; \<^verbatim>\<open>err_msg\<close> is
  a pointer to a string object, \<open>None\<close> for \<^verbatim>\<open>NULL\<close>. The bytes of the buffer are not
  modelled, only its address.
\<close>

record kmo_data_transfer =
  read_flag :: bool
  driver :: kmo_comm_driver
  fd :: int
  buf :: nat
  min_len :: "32 word"
  max_len :: "32 word"
  trans_len :: "32 word"
  op_timeout :: "32 word"
  status :: trans_status
  deadline :: timeval
  err_msg :: "string option"

text \<open>
  The hub (\<^verbatim>\<open>struct kmo_transfer_hub\<close>) holds one hash whose keys are the addresses of the
  member transfers; \<open>mem\<close> is the store those addresses point into.
\<close>

record hub_state =
  transfer_hash :: "nat list"
  mem :: "nat \<Rightarrow> kmo_data_transfer"

subsection \<open>Helpers that live outside the two source files\<close>

text \<open>
  Modelled from the spec: \<^verbatim>\<open>util_timeval_cmp\<close>, \<^verbatim>\<open>util_timeval_add\<close> and
  \<^verbatim>\<open>util_timeval_subtract\<close> of \<^verbatim>\<open>utils.h\<close> are missing. The spec asks for the standard
  time helpers: a three-way comparison giving \<open>-1\<close>, \<open>0\<close> or \<open>1\<close>, a sum that carries
  microseconds into seconds, and a difference (first operand minus second) that borrows.
\<close>

definition util_timeval_cmp :: "timeval \<Rightarrow> timeval \<Rightarrow> int" where
  "util_timeval_cmp a b =
     (if tv_sec a < tv_sec b then - 1
      else if tv_sec b < tv_sec a then 1
      else if tv_usec a < tv_usec b then - 1
      else if tv_usec b < tv_usec a then 1
      else 0)"

definition util_timeval_add :: "timeval \<Rightarrow> timeval \<Rightarrow> timeval" where
  "util_timeval_add a b =
     (let s = tv_sec a + tv_sec b; u = tv_usec a + tv_usec b
      in if 1000000 \<le> u then \<lparr>tv_sec = s + 1, tv_usec = u - 1000000\<rparr>
         else \<lparr>tv_sec = s, tv_usec = u\<rparr>)"

definition util_timeval_subtract :: "timeval \<Rightarrow> timeval \<Rightarrow> timeval" where
  "util_timeval_subtract x y =
     (let s = tv_sec x - tv_sec y; u = tv_usec x - tv_usec y
      in if u < 0 then \<lparr>tv_sec = s - 1, tv_usec = u + 1000000\<rparr>
         else \<lparr>tv_sec = s, tv_usec = u\<rparr>)"

text \<open>
  Modelled from the spec: the hash table \<^verbatim>\<open>khash\<close> is missing. The spec asks for a generic
  associative container keyed by transfer identity; here it is the list of its keys in
  iteration order.
\<close>

definition khash_exist :: "nat list \<Rightarrow> nat \<Rightarrow> bool" where
  "khash_exist h k = (k \<in> set h)"

definition khash_add :: "nat list \<Rightarrow> nat \<Rightarrow> nat list" where
  "khash_add h k = (if k \<in> set h then h else h @ [k])"

definition khash_remove :: "nat list \<Rightarrow> nat \<Rightarrow> nat list" where
  "khash_remove h k = removeAll k h"

subsection \<open>Transfers\<close>

text \<open>\<^verbatim>\<open>kmo_data_transfer_init\<close>: all fields zero, the descriptor unset.\<close>

definition kmo_data_transfer_init :: kmo_data_transfer where
  "kmo_data_transfer_init =
     \<lparr>read_flag = False, driver = \<lparr>read_data = 0, write_data = 0, disconnect = 0\<rparr>,
      fd = - 1, buf = 0, min_len = 0, max_len = 0, trans_len = 0, op_timeout = 0,
      status = KMO_COMM_TRANS_NONE, deadline = \<lparr>tv_sec = 0, tv_usec = 0\<rparr>,
      err_msg = None\<rparr>"

text \<open>\<^verbatim>\<open>kmo_data_transfer_err\<close>: asserts the error status, then picks the message.\<close>

definition kmo_data_transfer_err :: "kmo_data_transfer \<Rightarrow> error + string" where
  "kmo_data_transfer_err self =
     (if status self \<noteq> KMO_COMM_TRANS_ERROR then Inl AssertFailed
      else Inr (case err_msg self of Some s \<Rightarrow> s | None \<Rightarrow> ''timeout occurred''))"

text \<open>
  Both \<^verbatim>\<open>kmo_transfer_hub_add\<close> and the success branch of \<^verbatim>\<open>kmo_transfer_hub_wait\<close> turn the
  timeout in milliseconds into a \<^verbatim>\<open>timeval\<close> (\<^verbatim>\<open>op_timeout / 1000\<close> seconds and
  \<^verbatim>\<open>(op_timeout % 1000) * 1000\<close> microseconds, both computed on \<^verbatim>\<open>uint32_t\<close>) and add the
  current time to it.
\<close>

definition timeout_timeval :: "32 word \<Rightarrow> timeval" where
  "timeout_timeval t = \<lparr>tv_sec = uint (t div 1000), tv_usec = uint ((t mod 1000) * 1000)\<rparr>"

definition timeout_deadline :: "32 word \<Rightarrow> timeval \<Rightarrow> timeval" where
  "timeout_deadline t now = util_timeval_add (timeout_timeval t) now"

text \<open>The deadline of a transfer without timeout, and the starting value of the scan.\<close>

definition deadline_never :: timeval where
  "deadline_never = \<lparr>tv_sec = 2147483647, tv_usec = 0\<rparr>"

subsection \<open>Membership\<close>

text \<open>
  \<^verbatim>\<open>kmo_transfer_hub_add\<close>. \<open>now\<close> is what \<^verbatim>\<open>util_get_current_time\<close> returns. A failed
  \<^verbatim>\<open>assert\<close> aborts the process, which is the result \<open>Inl AssertFailed\<close>.
\<close>

definition kmo_transfer_hub_add :: "timeval \<Rightarrow> nat \<Rightarrow> hub_state \<Rightarrow> error + hub_state" where
  "kmo_transfer_hub_add now p s =
     (let t = mem s p in
      if khash_exist (transfer_hash s) p then Inl AssertFailed
      else if read_data (driver t) = 0 then Inl AssertFailed
      else if write_data (driver t) = 0 then Inl AssertFailed
      else if disconnect (driver t) = 0 then Inl AssertFailed
      else if fd t = - 1 then Inl AssertFailed
      else if \<not> min_len t \<le> max_len t then Inl AssertFailed
      else
        let t1 = t\<lparr>trans_len := 0, status := KMO_COMM_TRANS_PENDING\<rparr>;
            t2 = (if op_timeout t1 \<noteq> 0
                  then t1\<lparr>deadline := timeout_deadline (op_timeout t1) now\<rparr>
                  else t1\<lparr>deadline := deadline_never\<rparr>);
            t3 = (if err_msg t2 \<noteq> None then t2\<lparr>err_msg := None\<rparr> else t2)
        in Inr \<lparr>transfer_hash = khash_add (transfer_hash s) p, mem = (mem s)(p := t3)\<rparr>)"

text \<open>\<^verbatim>\<open>kmo_transfer_hub_remove\<close>.\<close>

definition kmo_transfer_hub_remove :: "nat \<Rightarrow> hub_state \<Rightarrow> hub_state" where
  "kmo_transfer_hub_remove p s = s\<lparr>transfer_hash := khash_remove (transfer_hash s) p\<rparr>"

subsection \<open>The outside world of one pass\<close>

text \<open>
  What a driver call gives back: the returned \<^verbatim>\<open>int\<close>, the byte count it leaves in \<^verbatim>\<open>*len\<close>,
  and the text \<^verbatim>\<open>kmo_kstrerror()\<close> yields afterwards.
\<close>

record drv_result =
  drv_ret :: int
  drv_len :: "32 word"
  drv_errstr :: string

text \<open>
  \<^verbatim>\<open>select()\<close> either leaves the ready descriptors in the two sets, or fails with
  \<^verbatim>\<open>EINTR\<close>, or fails otherwise.
\<close>

datatype select_result = SelectReady "int set" "int set" | SelectEINTR | SelectFailed

text \<open>
  One pass reads the clock before \<^verbatim>\<open>select()\<close>, calls \<^verbatim>\<open>select()\<close>, reads the clock again
  and calls the driver at most once for each transfer. \<open>drv e p nb\<close> is the outcome of the
  call made for the transfer at address \<open>p\<close> when \<open>nb\<close> bytes are requested.
\<close>

record pass_env =
  now_before :: timeval
  select_ret :: select_result
  now_after :: timeval
  drv :: "nat \<Rightarrow> 32 word \<Rightarrow> drv_result"

text \<open>
  The log: \<open>Select nfds readfds writefds timeout\<close> for a call of \<^verbatim>\<open>select()\<close>, and
  \<open>DriverCall p f fd buf len\<close> for a call of the driver function \<open>f\<close> on behalf of the
  transfer at \<open>p\<close>.
\<close>

datatype event =
    Select int "int set" "int set" timeval
  | DriverCall nat nat int nat "32 word"

subsection \<open>The scan of the members\<close>

record scan_state =
  done_flag :: bool
  read_set :: "int set"
  write_set :: "int set"
  max_sock :: int
  sel_deadline :: timeval
  transfer_array :: "nat list"

definition scan_init :: scan_state where
  "scan_init =
     \<lparr>done_flag = True, read_set = {}, write_set = {}, max_sock = 0,
      sel_deadline = \<lparr>tv_sec = 2147483647, tv_usec = 0\<rparr>, transfer_array = []\<rparr>"

text \<open>The test \<^verbatim>\<open>Unfinished transfer\<close> of the first loop.\<close>

definition unfinished :: "kmo_data_transfer \<Rightarrow> bool" where
  "unfinished t =
     (status t = KMO_COMM_TRANS_PENDING \<or>
      (status t = KMO_COMM_TRANS_COMPLETED \<and> min_len t < max_len t))"

text \<open>The body of the first loop, for the member at \<open>p\<close>.\<close>

definition scan_transfer :: "(nat \<Rightarrow> kmo_data_transfer) \<Rightarrow> scan_state \<Rightarrow> nat \<Rightarrow> scan_state" where
  "scan_transfer m sc p =
     (let t = m p in
      if unfinished t then
        sc\<lparr>done_flag := (if status t = KMO_COMM_TRANS_PENDING then False else done_flag sc),
           read_set := (if read_flag t then insert (fd t) (read_set sc) else read_set sc),
           write_set := (if read_flag t then write_set sc else insert (fd t) (write_set sc)),
           max_sock := max (fd t) (max_sock sc),
           sel_deadline :=
             (if util_timeval_cmp (deadline t) (sel_deadline sc) = - 1 then deadline t
              else sel_deadline sc),
           transfer_array := transfer_array sc @ [p]\<rparr>
      else sc)"

definition scan_hub :: "hub_state \<Rightarrow> scan_state" where
  "scan_hub s = foldl (scan_transfer (mem s)) scan_init (transfer_hash s)"

text \<open>The time handed to \<^verbatim>\<open>select()\<close>, from the clock and the scan's deadline.\<close>

definition select_timeout :: "timeval \<Rightarrow> timeval \<Rightarrow> timeval" where
  "select_timeout now dl =
     (let min_time = \<lparr>tv_sec = 0, tv_usec = 1000\<rparr>;
          time_to_wait = util_timeval_add now min_time
      in if 0 \<le> util_timeval_cmp time_to_wait dl then min_time
         else util_timeval_subtract dl now)"

subsection \<open>The second loop: what happened to each scanned transfer\<close>

text \<open>
  The body of the second loop for the transfer \<open>t\<close> stored at \<open>p\<close>; \<open>rs\<close> and \<open>ws\<close> are the
  two sets as \<^verbatim>\<open>select()\<close> left them. The result is the log of the step and either an abort
  or the pair of \<open>done_flag was set\<close> and the updated transfer.
\<close>

definition resolve_transfer ::
  "pass_env \<Rightarrow> int set \<Rightarrow> int set \<Rightarrow> nat \<Rightarrow> kmo_data_transfer
     \<Rightarrow> event list \<times> (error + bool \<times> kmo_data_transfer)" where
  "resolve_transfer e rs ws p t =
     (if fd t \<in> (if read_flag t then rs else ws) then
        let nb = max_len t - trans_len t;
            called = (nb \<noteq> 0);
            transfer_func = (if read_flag t then read_data (driver t) else write_data (driver t));
            r = drv e p nb;
            err = (if called then drv_ret r else 0);
            nb' = (if called then drv_len r else nb);
            evs = (if called
                   then [DriverCall p transfer_func (fd t) (buf t + unat (trans_len t)) nb]
                   else [])
        in if err = - 1 then
             (evs, Inr (True, t\<lparr>status := KMO_COMM_TRANS_ERROR, err_msg := Some (drv_errstr r)\<rparr>))
           else if err = - 2 then (evs, Inr (False, t))
           else if err \<noteq> 0 then (evs, Inl AssertFailed)
           else
             let t1 = t\<lparr>trans_len := trans_len t + nb'\<rparr>;
                 completed = (status t1 = KMO_COMM_TRANS_PENDING \<and> min_len t1 \<le> trans_len t1);
                 t2 = (if completed then t1\<lparr>status := KMO_COMM_TRANS_COMPLETED\<rparr> else t1);
                 t3 = (if op_timeout t2 \<noteq> 0
                       then t2\<lparr>deadline := timeout_deadline (op_timeout t2) (now_after e)\<rparr>
                       else t2)
             in (evs, Inr (completed, t3))
      else if util_timeval_cmp (deadline t) (now_after e) = - 1 then
        (if err_msg t \<noteq> None then ([], Inl AssertFailed)
         else ([], Inr (True, t\<lparr>status := KMO_COMM_TRANS_ERROR\<rparr>)))
      else ([], Inr (False, t)))"

text \<open>The second loop over \<^verbatim>\<open>transfer_array\<close>, threading the store.\<close>

fun resolve_array ::
  "pass_env \<Rightarrow> int set \<Rightarrow> int set \<Rightarrow> nat list \<Rightarrow> (nat \<Rightarrow> kmo_data_transfer)
     \<Rightarrow> event list \<times> (error + bool \<times> (nat \<Rightarrow> kmo_data_transfer))" where
  "resolve_array e rs ws [] m = ([], Inr (False, m))"
| "resolve_array e rs ws (p # ps) m =
     (case resolve_transfer e rs ws p (m p) of
        (evs, Inl err) \<Rightarrow> (evs, Inl err)
      | (evs, Inr (d, t')) \<Rightarrow>
          (case resolve_array e rs ws ps (m(p := t')) of
             (evs', Inl err) \<Rightarrow> (evs @ evs', Inl err)
           | (evs', Inr (d', m')) \<Rightarrow> (evs @ evs', Inr (d \<or> d', m'))))"

subsection \<open>Waiting\<close>

text \<open>
  \<^verbatim>\<open>kmo_transfer_hub_wait\<close> (the \<^verbatim>\<open>__UNIX__\<close> build, where \<^verbatim>\<open>EINTR\<close> restarts the loop). Each
  pass that reaches \<^verbatim>\<open>select()\<close> takes the next environment of the script; a script that
  ends while the loop still runs gives \<open>None\<close>. \<^verbatim>\<open>kmo_fatalerror\<close> ends the process.
\<close>

fun kmo_transfer_hub_wait ::
  "pass_env list \<Rightarrow> hub_state \<Rightarrow> (event list \<times> (error + hub_state)) option" where
  "kmo_transfer_hub_wait [] s = (if done_flag (scan_hub s) then Some ([], Inr s) else None)"
| "kmo_transfer_hub_wait (e # es) s =
     (let sc = scan_hub s in
      if done_flag sc then Some ([], Inr s)
      else
        let ev = Select (max_sock sc + 1) (read_set sc) (write_set sc)
                   (select_timeout (now_before e) (sel_deadline sc))
        in case select_ret e of
             SelectFailed \<Rightarrow> Some ([ev], Inl FatalError)
           | SelectEINTR \<Rightarrow>
               map_option (\<lambda>(tr, r). (ev # tr, r)) (kmo_transfer_hub_wait es s)
           | SelectReady rr rw \<Rightarrow>
               (case resolve_array e (rr \<inter> read_set sc) (rw \<inter> write_set sc)
                       (transfer_array sc) (mem s) of
                  (evs, Inl err) \<Rightarrow> Some (ev # evs, Inl err)
                | (evs, Inr (d, m')) \<Rightarrow>
                    if d then Some (ev # evs, Inr (s\<lparr>mem := m'\<rparr>))
                    else map_option (\<lambda>(tr, r). (ev # evs @ tr, r))
                           (kmo_transfer_hub_wait es (s\<lparr>mem := m'\<rparr>))))"

text \<open>
  Successive calls of \<^verbatim>\<open>kmo_transfer_hub_wait\<close>, one script per call, each returning
  normally: the log and the state that each call leaves behind.
\<close>

fun hub_waits :: "pass_env list list \<Rightarrow> hub_state \<Rightarrow> (event list \<times> hub_state) list option" where
  "hub_waits [] s = Some []"
| "hub_waits (es # ess) s =
     (case kmo_transfer_hub_wait es s of
        Some (tr, Inr s') \<Rightarrow> map_option ((#) (tr, s')) (hub_waits ess s')
      | _ \<Rightarrow> None)"

subsection \<open>Views used by the statements\<close>

text \<open>A time of day in microseconds, and the normal form with \<open>0 \<le> tv_usec < 1000000\<close>.\<close>

definition tv_usecs :: "timeval \<Rightarrow> int" where
  "tv_usecs tv = tv_sec tv * 1000000 + tv_usec tv"

definition tv_normal :: "timeval \<Rightarrow> bool" where
  "tv_normal tv = (0 \<le> tv_usec tv \<and> tv_usec tv < 1000000)"

text \<open>The transfer a logged event was made for.\<close>

fun event_transfer :: "event \<Rightarrow> nat option" where
  "event_transfer (Select n rs ws tv) = None"
| "event_transfer (DriverCall p f d b n) = Some p"

text \<open>The test \<^verbatim>\<open>FD_ISSET(transfer->fd, set)\<close> of the second loop.\<close>

definition is_ready :: "int set \<Rightarrow> int set \<Rightarrow> kmo_data_transfer \<Rightarrow> bool" where
  "is_ready rs ws t = (fd t \<in> (if read_flag t then rs else ws))"

text \<open>
  The call of \<^verbatim>\<open>select()\<close> that a pass makes from state \<open>s\<close>, and the two sets as that
  call leaves them.
\<close>

definition select_call :: "pass_env \<Rightarrow> hub_state \<Rightarrow> event" where
  "select_call e s =
     (let sc = scan_hub s
      in Select (max_sock sc + 1) (read_set sc) (write_set sc)
           (select_timeout (now_before e) (sel_deadline sc)))"

definition ready_read :: "pass_env \<Rightarrow> hub_state \<Rightarrow> int set" where
  "ready_read e s =
     (case select_ret e of SelectReady rr rw \<Rightarrow> rr \<inter> read_set (scan_hub s) | _ \<Rightarrow> {})"

definition ready_write :: "pass_env \<Rightarrow> hub_state \<Rightarrow> int set" where
  "ready_write e s =
     (case select_ret e of SelectReady rr rw \<Rightarrow> rw \<inter> write_set (scan_hub s) | _ \<Rightarrow> {})"

subsection \<open>Concrete inputs\<close>

text \<open>
  A configured read transfer that was used before (stale progress and error text), a store
  holding it at every address but \<open>2\<close>, where the same transfer has no timeout, and an
  empty hub.
\<close>

definition ex_transfer :: kmo_data_transfer where
  "ex_transfer =
     \<lparr>read_flag = True, driver = \<lparr>read_data = 1, write_data = 2, disconnect = 3\<rparr>,
      fd = 3, buf = 4096, min_len = 4, max_len = 10, trans_len = 7, op_timeout = 1500,
      status = KMO_COMM_TRANS_NONE, deadline = \<lparr>tv_sec = 0, tv_usec = 0\<rparr>,
      err_msg = Some ''stale''\<rparr>"

definition ex_hub :: hub_state where
  "ex_hub =
     \<lparr>transfer_hash = [],
      mem = (\<lambda>q. if q = 2 then ex_transfer\<lparr>fd := 5, op_timeout := 0\<rparr> else ex_transfer)\<rparr>"

definition ex_now :: timeval where
  "ex_now = \<lparr>tv_sec = 100, tv_usec = 999000\<rparr>"

text \<open>
  The hub after the transfer at \<open>2\<close> was registered, and a pass in which \<^verbatim>\<open>select()\<close> reports
  the descriptors \<open>3\<close> and \<open>5\<close> readable one millisecond after it was called, with a driver
  that moves at most four bytes per call.
\<close>

definition ex_hub1 :: hub_state where
  "ex_hub1 =
     \<lparr>transfer_hash = [2],
      mem = (\<lambda>q. if q = 2
                 then ex_transfer\<lparr>fd := 5, op_timeout := 0, trans_len := 0,
                        status := KMO_COMM_TRANS_PENDING,
                        deadline := \<lparr>tv_sec = 2147483647, tv_usec = 0\<rparr>, err_msg := None\<rparr>
                 else ex_transfer)\<rparr>"

definition ex_env :: pass_env where
  "ex_env =
     \<lparr>now_before = \<lparr>tv_sec = 101, tv_usec = 0\<rparr>,
      select_ret = SelectReady {3, 5} {},
      now_after = \<lparr>tv_sec = 101, tv_usec = 1000\<rparr>,
      drv = (\<lambda>p nb. \<lparr>drv_ret = 0, drv_len = min nb 4, drv_errstr = []\<rparr>)\<rparr>"

text \<open>The same hub once the transfer at \<open>2\<close> has its first four bytes: completed, not full.\<close>

definition ex_hub2 :: hub_state where
  "ex_hub2 =
     \<lparr>transfer_hash = [2],
      mem = (\<lambda>q. if q = 2
                 then ex_transfer\<lparr>fd := 5, op_timeout := 0, trans_len := 4,
                        status := KMO_COMM_TRANS_COMPLETED,
                        deadline := \<lparr>tv_sec = 2147483647, tv_usec = 0\<rparr>, err_msg := None\<rparr>
                 else ex_transfer)\<rparr>"

text \<open>
  A hub with a pending member at \<open>1\<close> and the completed, not yet full member at \<open>2\<close>, and
  a pass in which only descriptor \<open>5\<close> is reported and the driver fails.
\<close>

definition ex_hub3 :: hub_state where
  "ex_hub3 =
     \<lparr>transfer_hash = [1, 2],
      mem = (\<lambda>q. if q = 2
                 then ex_transfer\<lparr>fd := 5, op_timeout := 0, trans_len := 4,
                        status := KMO_COMM_TRANS_COMPLETED,
                        deadline := \<lparr>tv_sec = 2147483647, tv_usec = 0\<rparr>, err_msg := None\<rparr>
                 else ex_transfer\<lparr>trans_len := 0, status := KMO_COMM_TRANS_PENDING,
                        deadline := \<lparr>tv_sec = 102, tv_usec = 499000\<rparr>, err_msg := None\<rparr>)\<rparr>"

definition ex_env_fail :: pass_env where
  "ex_env_fail =
     \<lparr>now_before = \<lparr>tv_sec = 101, tv_usec = 0\<rparr>,
      select_ret = SelectReady {5} {},
      now_after = \<lparr>tv_sec = 101, tv_usec = 1000\<rparr>,
      drv = (\<lambda>p nb. \<lparr>drv_ret = - 1, drv_len = nb, drv_errstr = ''connection reset''\<rparr>)\<rparr>"

text \<open>
  The hub \<open>ex_hub1\<close> with a configured transfer of length zero on descriptor \<open>7\<close> in the
  store, and a pass in which only that descriptor is reported.
\<close>

definition ex_hub4 :: hub_state where
  "ex_hub4 =
     \<lparr>transfer_hash = [2],
      mem = (\<lambda>q. if q = 2
                 then ex_transfer\<lparr>fd := 5, op_timeout := 0, trans_len := 0,
                        status := KMO_COMM_TRANS_PENDING,
                        deadline := \<lparr>tv_sec = 2147483647, tv_usec = 0\<rparr>, err_msg := None\<rparr>
                 else ex_transfer\<lparr>fd := 7, min_len := 0, max_len := 0\<rparr>)\<rparr>"

definition ex_env7 :: pass_env where
  "ex_env7 =
     \<lparr>now_before = \<lparr>tv_sec = 101, tv_usec = 0\<rparr>,
      select_ret = SelectReady {7} {},
      now_after = \<lparr>tv_sec = 101, tv_usec = 1000\<rparr>,
      drv = (\<lambda>p nb. \<lparr>drv_ret = 0, drv_len = min nb 4, drv_errstr = []\<rparr>)\<rparr>"




text \<open>The hub \<open>ex_hub1\<close> after the transfer at \<open>3\<close> was registered at time \<open>ex_now\<close>.\<close>

definition ex_hub5 :: hub_state where
  "ex_hub5 =
     \<lparr>transfer_hash = [2, 3],
      mem = (mem ex_hub1)
        (3 := ex_transfer\<lparr>trans_len := 0, status := KMO_COMM_TRANS_PENDING,
                deadline := \<lparr>tv_sec = 102, tv_usec = 499000\<rparr>, err_msg := None\<rparr>)\<rparr>"

text \<open>
  The wait of the specification, in microseconds: the least of the given deadlines minus
  the current time, and at least one millisecond.
\<close>

definition spec_wait_usecs :: "int \<Rightarrow> int set \<Rightarrow> int" where
  "spec_wait_usecs now deadlines = max 1000 (Min deadlines - now)"

text \<open>The deadlines, in microseconds, of the members that the scan selects.\<close>

definition selected_deadlines :: "hub_state \<Rightarrow> int set" where
  "selected_deadlines s =
     (\<lambda>p. tv_usecs (deadline (mem s p))) ` {p \<in> set (transfer_hash s). unfinished (mem s p)}"

text \<open>
  The empty hub of \<open>ex_hub\<close> after the transfer at \<open>3\<close>, with its timeout of 1.5 seconds,
  was registered when the clock read 2147483647 seconds, and a pass that starts a tenth
  of a second later and finds its descriptor readable.
\<close>

definition ex_hub_late :: hub_state where
  "ex_hub_late =
     \<lparr>transfer_hash = [3],
      mem = (mem ex_hub)
        (3 := ex_transfer\<lparr>trans_len := 0, status := KMO_COMM_TRANS_PENDING,
                deadline := \<lparr>tv_sec = 2147483648, tv_usec = 500000\<rparr>, err_msg := None\<rparr>)\<rparr>"

definition ex_env_late :: pass_env where
  "ex_env_late =
     \<lparr>now_before = \<lparr>tv_sec = 2147483647, tv_usec = 100000\<rparr>,
      select_ret = SelectReady {3} {},
      now_after = \<lparr>tv_sec = 2147483647, tv_usec = 101000\<rparr>,
      drv = (\<lambda>p nb. \<lparr>drv_ret = 0, drv_len = min nb 4, drv_errstr = []\<rparr>)\<rparr>"











text \<open>A pass like \<open>ex_env\<close> in which the driver has nothing to give and returns \<open>-2\<close>.\<close>

definition ex_env_block :: pass_env where
  "ex_env_block =
     \<lparr>now_before = \<lparr>tv_sec = 101, tv_usec = 0\<rparr>,
      select_ret = SelectReady {3, 5} {},
      now_after = \<lparr>tv_sec = 101, tv_usec = 1000\<rparr>,
      drv = (\<lambda>p nb. \<lparr>drv_ret = - 2, drv_len = nb, drv_errstr = []\<rparr>)\<rparr>"








section \<open>Properties\<close>

subsection \<open>Time arithmetic\<close>

lemma tv_usecs_add: "tv_usecs (util_timeval_add a b) = tv_usecs a + tv_usecs b"
  by (simp add: tv_usecs_def util_timeval_add_def Let_def)

lemma tv_normal_add: "tv_normal a \<Longrightarrow> tv_normal b \<Longrightarrow> tv_normal (util_timeval_add a b)"
  by (simp add: tv_normal_def util_timeval_add_def Let_def)

lemma tv_usecs_subtract: "tv_usecs (util_timeval_subtract a b) = tv_usecs a - tv_usecs b"
  by (simp add: tv_usecs_def util_timeval_subtract_def Let_def)

lemma tv_normal_subtract: "tv_normal a \<Longrightarrow> tv_normal b \<Longrightarrow> tv_normal (util_timeval_subtract a b)"
  by (simp add: tv_normal_def util_timeval_subtract_def Let_def)

lemma tv_cmp_usecs:
  assumes "tv_normal a" "tv_normal b"
  shows "util_timeval_cmp a b = (if tv_usecs a < tv_usecs b then - 1 else if tv_usecs b < tv_usecs a then 1 else 0)"
  using assms by (auto simp: tv_normal_def tv_usecs_def util_timeval_cmp_def)

lemma uint_timeout_usec: "uint ((t mod 1000) * 1000 :: 32 word) = (uint t mod 1000) * 1000"
proof -
  have "uint t mod 1000 < 1000" by simp
  moreover have "0 \<le> uint t mod 1000" by simp
  ultimately have "(uint t mod 1000) * 1000 < 2 ^ 32" "0 \<le> (uint t mod 1000) * 1000" by auto
  then show ?thesis
    by (simp add: uint_word_ariths uint_mod)
qed

lemma tv_usecs_timeout: "tv_usecs (timeout_timeval t) = 1000 * uint t"
proof -
  have "uint t div 1000 * 1000000 + uint t mod 1000 * 1000 = 1000 * uint t"
    by presburger
  then show ?thesis
    by (simp add: tv_usecs_def timeout_timeval_def uint_timeout_usec uint_div)
qed


subsection \<open>Registration\<close>

lemma err_msg_None_upd: "err_msg t = None \<Longrightarrow> t\<lparr>err_msg := None\<rparr> = t"
  by (cases t) simp

lemma add_result:
  assumes "p \<notin> set (transfer_hash s)"
    and "read_data (driver (mem s p)) \<noteq> 0"
    and "write_data (driver (mem s p)) \<noteq> 0"
    and "disconnect (driver (mem s p)) \<noteq> 0"
    and "fd (mem s p) \<noteq> - 1"
    and "min_len (mem s p) \<le> max_len (mem s p)"
  shows "kmo_transfer_hub_add now p s =
    Inr \<lparr>transfer_hash = transfer_hash s @ [p],
         mem = (mem s)(p := (mem s p)
           \<lparr>trans_len := 0, status := KMO_COMM_TRANS_PENDING,
            deadline := (if op_timeout (mem s p) \<noteq> 0
                         then timeout_deadline (op_timeout (mem s p)) now
                         else deadline_never),
            err_msg := None\<rparr>)\<rparr>"
  using assms
  by (simp add: kmo_transfer_hub_add_def khash_exist_def khash_add_def Let_def err_msg_None_upd)

lemma add_InrD:
  assumes "kmo_transfer_hub_add now p s = Inr s'"
  shows "p \<notin> set (transfer_hash s)"
    and "read_data (driver (mem s p)) \<noteq> 0"
    and "write_data (driver (mem s p)) \<noteq> 0"
    and "disconnect (driver (mem s p)) \<noteq> 0"
    and "fd (mem s p) \<noteq> - 1"
    and "min_len (mem s p) \<le> max_len (mem s p)"
  using assms
  by (auto simp: kmo_transfer_hub_add_def khash_exist_def Let_def split: if_splits)

lemma add_Inr_eq:
  assumes "kmo_transfer_hub_add now p s = Inr s'"
  shows "s' = \<lparr>transfer_hash = transfer_hash s @ [p],
         mem = (mem s)(p := (mem s p)
           \<lparr>trans_len := 0, status := KMO_COMM_TRANS_PENDING,
            deadline := (if op_timeout (mem s p) \<noteq> 0
                         then timeout_deadline (op_timeout (mem s p)) now
                         else deadline_never),
            err_msg := None\<rparr>)\<rparr>"
  using add_result [OF add_InrD [OF assms], of now] assms by simp

subsection \<open>The scan\<close>

lemma scan_array_foldl:
  "transfer_array (foldl (scan_transfer m) sc ps) =
     transfer_array sc @ filter (\<lambda>p. unfinished (m p)) ps"
  by (induction ps arbitrary: sc) (simp_all add: scan_transfer_def Let_def)

lemma scan_done_foldl:
  "done_flag (foldl (scan_transfer m) sc ps) =
     (done_flag sc \<and> (\<forall>p\<in>set ps. status (m p) \<noteq> KMO_COMM_TRANS_PENDING))"
  by (induction ps arbitrary: sc) (auto simp: scan_transfer_def Let_def unfinished_def)

lemma scan_array: "transfer_array (scan_hub s) = filter (\<lambda>p. unfinished (mem s p)) (transfer_hash s)"
  by (simp add: scan_hub_def scan_array_foldl scan_init_def)

lemma scan_done:
  "done_flag (scan_hub s) = (\<forall>p\<in>set (transfer_hash s). status (mem s p) \<noteq> KMO_COMM_TRANS_PENDING)"
  by (simp add: scan_hub_def scan_done_foldl scan_init_def)

lemma Min_insert_min:
  fixes a :: int
  shows "finite A \<Longrightarrow> Min (insert (min a b) A) = Min (insert a (insert b A))"
  by (cases "A = {}") (simp_all add: min.assoc)

lemma scan_deadline_foldl:
  assumes "tv_normal (sel_deadline sc)"
    and "\<forall>p\<in>set ps. unfinished (m p) \<longrightarrow> tv_normal (deadline (m p))"
  shows "tv_normal (sel_deadline (foldl (scan_transfer m) sc ps)) \<and>
         tv_usecs (sel_deadline (foldl (scan_transfer m) sc ps)) =
           Min (insert (tv_usecs (sel_deadline sc))
                  ((\<lambda>p. tv_usecs (deadline (m p))) ` {p \<in> set ps. unfinished (m p)}))"
  using assms
proof (induction ps arbitrary: sc)
  case Nil
  then show ?case by simp
next
  case (Cons q ps)
  let ?sc' = "scan_transfer m sc q"
  show ?case
  proof (cases "unfinished (m q)")
    case False
    then have sc': "?sc' = sc" by (simp add: scan_transfer_def)
    have eq: "{p \<in> set (q # ps). unfinished (m p)} = {p \<in> set ps. unfinished (m p)}"
      using False by auto
    show ?thesis using Cons.IH [of sc] Cons.prems sc' eq by simp
  next
    case True
    then have nq: "tv_normal (deadline (m q))" using Cons.prems by simp
    have n': "tv_normal (sel_deadline ?sc')"
      using True nq Cons.prems(1) by (simp add: scan_transfer_def Let_def)
    have u': "tv_usecs (sel_deadline ?sc') = min (tv_usecs (deadline (m q))) (tv_usecs (sel_deadline sc))"
      using True nq Cons.prems(1)
      by (simp add: scan_transfer_def Let_def tv_cmp_usecs)
    have eq: "{p \<in> set (q # ps). unfinished (m p)} = insert q {p \<in> set ps. unfinished (m p)}"
      using True by auto
    have fin: "finite ((\<lambda>p. tv_usecs (deadline (m p))) ` {p \<in> set ps. unfinished (m p)})"
      by simp
    have "Min (insert (tv_usecs (sel_deadline ?sc'))
                  ((\<lambda>p. tv_usecs (deadline (m p))) ` {p \<in> set ps. unfinished (m p)})) =
          Min (insert (tv_usecs (sel_deadline sc))
                  ((\<lambda>p. tv_usecs (deadline (m p))) ` {p \<in> set (q # ps). unfinished (m p)}))"
      unfolding eq u' image_insert
      by (simp only: Min_insert_min [OF fin] insert_commute)
    then show ?thesis using Cons.IH [of ?sc'] n' Cons.prems by simp
  qed
qed

subsection \<open>The second loop\<close>

lemma resolve_not_ready:
  assumes "\<not> is_ready rs ws t"
  shows "resolve_transfer e rs ws p t =
     (if util_timeval_cmp (deadline t) (now_after e) = - 1
      then (if err_msg t \<noteq> None then ([], Inl AssertFailed)
            else ([], Inr (True, t\<lparr>status := KMO_COMM_TRANS_ERROR\<rparr>)))
      else ([], Inr (False, t)))"
  using assms by (simp add: resolve_transfer_def is_ready_def)

lemma resolve_events:
  "ev \<in> set (fst (resolve_transfer e rs ws p t)) \<Longrightarrow> event_transfer ev = Some p"
  by (auto simp: resolve_transfer_def Let_def split: if_splits)

lemma resolve_array_events:
  "ev \<in> set (fst (resolve_array e rs ws ps m)) \<Longrightarrow> \<exists>q\<in>set ps. event_transfer ev = Some q"
proof (induction ps arbitrary: m ev)
  case Nil
  then show ?case by simp
next
  case (Cons p ps)
  obtain evs r where rt: "resolve_transfer e rs ws p (m p) = (evs, r)"
    by (cases "resolve_transfer e rs ws p (m p)")
  show ?case
  proof (cases r)
    case (Inl err)
    with rt Cons.prems have "ev \<in> set (fst (resolve_transfer e rs ws p (m p)))" by simp
    then show ?thesis using resolve_events by fastforce
  next
    case (Inr dt)
    obtain d t' where dt: "dt = (d, t')" by (cases dt)
    obtain evs' r' where ra: "resolve_array e rs ws ps (m(p := t')) = (evs', r')"
      by (cases "resolve_array e rs ws ps (m(p := t'))")
    from rt Inr dt ra Cons.prems have "ev \<in> set evs \<or> ev \<in> set evs'"
      by (auto split: sum.splits)
    then show ?thesis
    proof
      assume "ev \<in> set evs"
      then have "ev \<in> set (fst (resolve_transfer e rs ws p (m p)))" using rt by simp
      then show ?thesis using resolve_events by fastforce
    next
      assume "ev \<in> set evs'"
      then have "ev \<in> set (fst (resolve_array e rs ws ps (m(p := t'))))" using ra by simp
      then show ?thesis using Cons.IH by fastforce
    qed
  qed
qed

text \<open>A relation between the transfer before and after that every step keeps is kept by the loop.\<close>

lemma resolve_array_rel:
  assumes refl: "\<And>t. R t t"
    and trans: "\<And>a b c. R a b \<Longrightarrow> R b c \<Longrightarrow> R a c"
    and step: "\<And>p t evs d t'. resolve_transfer e rs ws p t = (evs, Inr (d, t')) \<Longrightarrow> R t t'"
    and res: "resolve_array e rs ws ps m = (evs, Inr (d, m'))"
  shows "R (m q) (m' q)"
  using res
proof (induction ps arbitrary: m evs d)
  case Nil
  then show ?case using refl by simp
next
  case (Cons p ps)
  from Cons.prems obtain evs1 d1 t1 evs2 d2 where
    rt: "resolve_transfer e rs ws p (m p) = (evs1, Inr (d1, t1))" and
    ra: "resolve_array e rs ws ps (m(p := t1)) = (evs2, Inr (d2, m'))"
    by (auto split: prod.splits sum.splits)
  have "R ((m(p := t1)) q) (m' q)" using Cons.IH [OF ra] .
  moreover have "R (m q) ((m(p := t1)) q)"
    using step [OF rt] refl by simp
  ultimately show ?case using trans by blast
qed

lemma resolve_array_frame:
  assumes "resolve_array e rs ws ps m = (evs, Inr (d, m'))" and "q \<notin> set ps"
  shows "m' q = m q"
  using assms
proof (induction ps arbitrary: m evs d)
  case Nil
  then show ?case by simp
next
  case (Cons p ps)
  from Cons.prems obtain evs1 d1 t1 evs2 d2 where
    rt: "resolve_transfer e rs ws p (m p) = (evs1, Inr (d1, t1))" and
    ra: "resolve_array e rs ws ps (m(p := t1)) = (evs2, Inr (d2, m'))"
    by (auto split: prod.splits sum.splits)
  have "m' q = (m(p := t1)) q" using Cons.IH [OF ra] Cons.prems(2) by simp
  then show ?case using Cons.prems(2) by simp
qed


subsection \<open>Case analysis of a call\<close>

lemma wait_Nil_cases:
  assumes "kmo_transfer_hub_wait [] s = Some (tr, r)"
  shows "done_flag (scan_hub s) \<and> tr = [] \<and> r = Inr s"
  using assms by (simp split: if_splits)

lemma wait_Cons_cases [consumes 1, case_names idle failed eintr abort event again]:
  assumes w: "kmo_transfer_hub_wait (e # es) s = Some (tr, r)"
  obtains
    (idle) "done_flag (scan_hub s)" "tr = []" "r = Inr s"
  | (failed) "\<not> done_flag (scan_hub s)" "select_ret e = SelectFailed"
      "tr = [select_call e s]" "r = Inl FatalError"
  | (eintr) tr' where "\<not> done_flag (scan_hub s)" "select_ret e = SelectEINTR"
      "kmo_transfer_hub_wait es s = Some (tr', r)" "tr = select_call e s # tr'"
  | (abort) rr rw evs err where "\<not> done_flag (scan_hub s)" "select_ret e = SelectReady rr rw"
      "resolve_array e (ready_read e s) (ready_write e s) (transfer_array (scan_hub s)) (mem s)
         = (evs, Inl err)"
      "tr = select_call e s # evs" "r = Inl err"
  | (event) rr rw evs m' where "\<not> done_flag (scan_hub s)" "select_ret e = SelectReady rr rw"
      "resolve_array e (ready_read e s) (ready_write e s) (transfer_array (scan_hub s)) (mem s)
         = (evs, Inr (True, m'))"
      "tr = select_call e s # evs" "r = Inr (s\<lparr>mem := m'\<rparr>)"
  | (again) rr rw evs m' tr' where "\<not> done_flag (scan_hub s)" "select_ret e = SelectReady rr rw"
      "resolve_array e (ready_read e s) (ready_write e s) (transfer_array (scan_hub s)) (mem s)
         = (evs, Inr (False, m'))"
      "kmo_transfer_hub_wait es (s\<lparr>mem := m'\<rparr>) = Some (tr', r)"
      "tr = select_call e s # evs @ tr'"
proof (cases "done_flag (scan_hub s)")
  case True
  with w idle show ?thesis by simp
next
  case nd: False
  show ?thesis
  proof (cases "select_ret e")
    case SelectFailed
    with nd w failed show ?thesis by (simp add: Let_def select_call_def)
  next
    case SelectEINTR
    with nd w eintr show ?thesis by (auto simp: Let_def select_call_def)
  next
    case (SelectReady rr rw)
    obtain evs r0 where ra: "resolve_array e (ready_read e s) (ready_write e s)
                       (transfer_array (scan_hub s)) (mem s) = (evs, r0)"
      by (cases "resolve_array e (ready_read e s) (ready_write e s)
                       (transfer_array (scan_hub s)) (mem s)")
    then have ra': "resolve_array e (rr \<inter> read_set (scan_hub s)) (rw \<inter> write_set (scan_hub s))
                       (transfer_array (scan_hub s)) (mem s) = (evs, r0)"
      using SelectReady by (simp add: ready_read_def ready_write_def)
    show ?thesis
    proof (cases r0)
      case (Inl err)
      with nd w SelectReady ra ra' abort show ?thesis by (simp add: Let_def select_call_def)
    next
      case (Inr dm)
      obtain d m' where dm: "dm = (d, m')" by (cases dm)
      show ?thesis
      proof (cases d)
        case True
        with nd w SelectReady ra ra' Inr dm event show ?thesis
          by (simp add: Let_def select_call_def)
      next
        case False
        with nd w SelectReady ra ra' Inr dm again show ?thesis
          by (auto simp: Let_def select_call_def)
      qed
    qed
  qed
qed


section \<open>Behaviour of the hub\<close>



lemma scan_array_subset: "set (transfer_array (scan_hub s)) \<subseteq> set (transfer_hash s)"
  by (simp add: scan_array)

lemma wait_nonmember_events:
  assumes "kmo_transfer_hub_wait es s = Some (tr, r)" and "p \<notin> set (transfer_hash s)"
  shows "\<forall>ev\<in>set tr. event_transfer ev \<noteq> Some p"
  using assms
proof (induction es arbitrary: s tr)
  case Nil
  from wait_Nil_cases [OF Nil.prems(1)] show ?case by simp
next
  case (Cons e es)
  have pn: "p \<notin> set (transfer_array (scan_hub s))"
    using Cons.prems(2) scan_array_subset by blast
  have evs_ok: "\<forall>ev\<in>set evs. event_transfer ev \<noteq> Some p"
    if "resolve_array e (ready_read e s) (ready_write e s) (transfer_array (scan_hub s)) (mem s)
         = (evs, x)" for evs x
  proof
    fix ev assume "ev \<in> set evs"
    then have "ev \<in> set (fst (resolve_array e (ready_read e s) (ready_write e s)
                 (transfer_array (scan_hub s)) (mem s)))" using that by simp
    from resolve_array_events [OF this] pn show "event_transfer ev \<noteq> Some p" by auto
  qed
  have sc: "event_transfer (select_call e s) \<noteq> Some p"
    by (simp add: select_call_def Let_def)
  from Cons.prems(1) show ?case
  proof (cases rule: wait_Cons_cases)
    case idle
    show ?thesis by (simp add: idle(2))
  next
    case failed
    show ?thesis using sc by (simp add: failed(3))
  next
    case (eintr tr')
    show ?thesis using Cons.IH [OF eintr(3) Cons.prems(2)] sc by (simp add: eintr(4))
  next
    case (abort rr rw evs err)
    show ?thesis using evs_ok [OF abort(3)] sc by (simp add: abort(4))
  next
    case (event rr rw evs m')
    show ?thesis using evs_ok [OF event(3)] sc by (simp add: event(4))
  next
    case (again rr rw evs m' tr')
    have "p \<notin> set (transfer_hash (s\<lparr>mem := m'\<rparr>))" using Cons.prems(2) by simp
    from Cons.IH [OF again(4) this] sc evs_ok [OF again(3)]
    show ?thesis by (auto simp: again(5))
  qed
qed

lemma wait_nonmember:
  assumes "kmo_transfer_hub_wait es s = Some (tr, Inr s')" and "p \<notin> set (transfer_hash s)"
  shows "mem s' p = mem s p \<and> transfer_hash s' = transfer_hash s"
  using assms
proof (induction es arbitrary: s tr)
  case Nil
  from wait_Nil_cases [OF Nil.prems(1)] show ?case by simp
next
  case (Cons e es)
  have pn: "p \<notin> set (transfer_array (scan_hub s))"
    using Cons.prems(2) scan_array_subset by blast
  from Cons.prems(1) show ?case
  proof (cases rule: wait_Cons_cases)
    case idle
    then show ?thesis by simp
  next
    case failed
    then show ?thesis by simp
  next
    case (eintr tr')
    show ?thesis using Cons.IH [OF eintr(3) Cons.prems(2)] .
  next
    case (abort rr rw evs err)
    then show ?thesis by simp
  next
    case (event rr rw evs m')
    have "s' = s\<lparr>mem := m'\<rparr>" using event(5) by simp
    then show ?thesis using resolve_array_frame [OF event(3) pn] by simp
  next
    case (again rr rw evs m' tr')
    have "p \<notin> set (transfer_hash (s\<lparr>mem := m'\<rparr>))" using Cons.prems(2) by simp
    from Cons.IH [OF again(4) this] resolve_array_frame [OF again(3) pn]
    show ?thesis by simp
  qed
qed

lemma hub_waits_nonmember:
  assumes "hub_waits ess s = Some sts" and "p \<notin> set (transfer_hash s)"
  shows "\<forall>s'\<in>snd ` set sts. mem s' p = mem s p \<and> p \<notin> set (transfer_hash s')"
  using assms
proof (induction ess arbitrary: s sts)
  case Nil
  then show ?case by simp
next
  case (Cons es ess)
  from Cons.prems(1) obtain tr s1 sts' where
    w: "kmo_transfer_hub_wait es s = Some (tr, Inr s1)" and
    rest: "hub_waits ess s1 = Some sts'" and sts: "sts = (tr, s1) # sts'"
    by (auto split: option.splits sum.splits)
  from wait_nonmember [OF w Cons.prems(2)] have
    s1: "mem s1 p = mem s p" "transfer_hash s1 = transfer_hash s" by simp_all
  then have "p \<notin> set (transfer_hash s1)" using Cons.prems(2) by simp
  from Cons.IH [OF rest this] s1 sts Cons.prems(2) show ?case by simp
qed

text \<open>
  C9. Removing a transfer right after it was added leaves its status pending and its
  struct as \<^verbatim>\<open>kmo_transfer_hub_add\<close> left it, and takes it out of the table (which is back
  to what it was). No later call of \<^verbatim>\<open>kmo_transfer_hub_wait\<close> scans it, changes it or calls
  the driver for it. Removing a transfer that is not a member changes nothing.
\<close>

theorem remove_after_add:
  assumes "kmo_transfer_hub_add now p s = Inr s1"
  shows "status (mem (kmo_transfer_hub_remove p s1) p) = KMO_COMM_TRANS_PENDING \<and>
         mem (kmo_transfer_hub_remove p s1) = mem s1 \<and>
         transfer_hash (kmo_transfer_hub_remove p s1) = transfer_hash s \<and>
         p \<notin> set (transfer_hash (kmo_transfer_hub_remove p s1)) \<and>
         (\<forall>ess sts. hub_waits ess (kmo_transfer_hub_remove p s1) = Some sts \<longrightarrow>
            (\<forall>s'\<in>snd ` set sts.
               mem s' p = mem s1 p \<and> p \<notin> set (transfer_array (scan_hub s')))) \<and>
         (\<forall>es tr r. kmo_transfer_hub_wait es (kmo_transfer_hub_remove p s1) = Some (tr, r) \<longrightarrow>
            (\<forall>ev\<in>set tr. event_transfer ev \<noteq> Some p)) \<and>
         (\<forall>q s0. q \<notin> set (transfer_hash s0) \<longrightarrow> kmo_transfer_hub_remove q s0 = s0)"
proof -
  let ?s2 = "kmo_transfer_hub_remove p s1"
  note eq = add_Inr_eq [OF assms]
  have pn: "p \<notin> set (transfer_hash s)" using add_InrD(1) [OF assms] .
  have m2: "mem ?s2 = mem s1" by (simp add: kmo_transfer_hub_remove_def)
  have h2: "transfer_hash ?s2 = transfer_hash s"
    using pn by (simp add: eq kmo_transfer_hub_remove_def khash_remove_def)
  have st: "status (mem ?s2 p) = KMO_COMM_TRANS_PENDING"
    unfolding m2 by (simp add: eq)
  have pn2: "p \<notin> set (transfer_hash ?s2)" using h2 pn by simp
  have waits: "\<forall>s'\<in>snd ` set sts. mem s' p = mem s1 p \<and> p \<notin> set (transfer_array (scan_hub s'))"
    if "hub_waits ess ?s2 = Some sts" for ess sts
    using hub_waits_nonmember [OF that pn2] m2 scan_array_subset by fastforce
  have evs: "\<forall>ev\<in>set tr. event_transfer ev \<noteq> Some p"
    if "kmo_transfer_hub_wait es ?s2 = Some (tr, r)" for es tr r
    using wait_nonmember_events [OF that pn2] .
  have noop: "kmo_transfer_hub_remove q s0 = s0" if "q \<notin> set (transfer_hash s0)" for q s0
    using that by (simp add: kmo_transfer_hub_remove_def khash_remove_def)
  from st m2 h2 pn2 waits evs noop show ?thesis by blast
qed

lemma ex_mem2: "mem ex_hub1 2 = ex_transfer\<lparr>fd := 5, op_timeout := 0, trans_len := 0,
                        status := KMO_COMM_TRANS_PENDING,
                        deadline := \<lparr>tv_sec = 2147483647, tv_usec = 0\<rparr>, err_msg := None\<rparr>"
  by (simp add: ex_hub1_def)

lemma ex_scan:
  assumes "transfer_hash s = [2]" and "mem s 2 = mem ex_hub1 2"
  shows "scan_hub s = \<lparr>done_flag = False, read_set = {5}, write_set = {}, max_sock = 5,
    sel_deadline = \<lparr>tv_sec = 2147483647, tv_usec = 0\<rparr>, transfer_array = [2]\<rparr>"
  by (simp add: scan_hub_def scan_init_def scan_transfer_def unfinished_def assms ex_mem2
        util_timeval_cmp_def ex_transfer_def)

lemma ex_resolve: "resolve_transfer ex_env {5} {} 2 (mem ex_hub1 2) =
   ([DriverCall 2 1 5 4096 10],
    Inr (True, (mem ex_hub1 2)\<lparr>trans_len := 4, status := KMO_COMM_TRANS_COMPLETED\<rparr>))"
  by (simp add: resolve_transfer_def ex_mem2 ex_transfer_def ex_env_def Let_def)

lemma ex_wait:
  assumes "transfer_hash s = [2]" and "mem s 2 = mem ex_hub1 2"
  shows "kmo_transfer_hub_wait (ex_env # es) s =
   Some ([Select 6 {5} {} \<lparr>tv_sec = 2147483546, tv_usec = 0\<rparr>, DriverCall 2 1 5 4096 10],
         Inr (s\<lparr>mem := (mem s)(2 := (mem ex_hub1 2)
                  \<lparr>trans_len := 4, status := KMO_COMM_TRANS_COMPLETED\<rparr>)\<rparr>))"
proof -
  have sr: "select_ret ex_env = SelectReady {3, 5} {}" by (simp add: ex_env_def)
  have nb: "now_before ex_env = \<lparr>tv_sec = 101, tv_usec = 0\<rparr>" by (simp add: ex_env_def)
  have st: "select_timeout \<lparr>tv_sec = 101, tv_usec = 0\<rparr> \<lparr>tv_sec = 2147483647, tv_usec = 0\<rparr>
              = \<lparr>tv_sec = 2147483546, tv_usec = 0\<rparr>"
    by (simp add: select_timeout_def util_timeval_add_def util_timeval_cmp_def
          util_timeval_subtract_def)
  show ?thesis
    by (simp add: ex_scan [OF assms] sr nb st assms(2) ex_resolve)
qed

theorem remove_after_add_witness:
  "\<exists>s1. kmo_transfer_hub_add ex_now 1 ex_hub1 = Inr s1 \<and>
         status (mem (kmo_transfer_hub_remove 1 s1) 1) = KMO_COMM_TRANS_PENDING \<and>
         transfer_hash (kmo_transfer_hub_remove 1 s1) = [2] \<and>
         (\<exists>sts. hub_waits [[ex_env]] (kmo_transfer_hub_remove 1 s1) = Some sts \<and>
            sts \<noteq> [] \<and> (\<forall>s'\<in>snd ` set sts. mem s' 1 = mem s1 1)) \<and>
         (\<exists>tr r. kmo_transfer_hub_wait [ex_env] (kmo_transfer_hub_remove 1 s1) = Some (tr, r) \<and>
            tr \<noteq> [] \<and> (\<forall>ev\<in>set tr. event_transfer ev \<noteq> Some 1)) \<and>
         7 \<notin> set (transfer_hash ex_hub1) \<and> kmo_transfer_hub_remove 7 ex_hub1 = ex_hub1"
proof -
  have pre: "1 \<notin> set (transfer_hash ex_hub1)"
    "read_data (driver (mem ex_hub1 1)) \<noteq> 0"
    "write_data (driver (mem ex_hub1 1)) \<noteq> 0"
    "disconnect (driver (mem ex_hub1 1)) \<noteq> 0"
    "fd (mem ex_hub1 1) \<noteq> - 1"
    "min_len (mem ex_hub1 1) \<le> max_len (mem ex_hub1 1)"
    by (simp_all add: ex_hub1_def ex_transfer_def)
  obtain s1 where add: "kmo_transfer_hub_add ex_now 1 ex_hub1 = Inr s1"
    using add_result [OF pre] by blast
  let ?s2 = "kmo_transfer_hub_remove 1 s1"
  note main = remove_after_add [OF add]
  have h2: "transfer_hash ?s2 = [2]" using main by (simp add: ex_hub1_def)
  have m2: "mem ?s2 2 = mem ex_hub1 2"
    by (simp add: add_Inr_eq [OF add] kmo_transfer_hub_remove_def)
  note w = ex_wait [OF h2 m2, of "[]"]
  have hw: "hub_waits [[ex_env]] ?s2 =
      Some [([Select 6 {5} {} \<lparr>tv_sec = 2147483546, tv_usec = 0\<rparr>, DriverCall 2 1 5 4096 10],
             ?s2\<lparr>mem := (mem ?s2)(2 := (mem ex_hub1 2)
                  \<lparr>trans_len := 4, status := KMO_COMM_TRANS_COMPLETED\<rparr>)\<rparr>)]"
    unfolding hub_waits.simps w by simp
  have a: "\<forall>s'\<in>snd ` set [([Select 6 {5} {} \<lparr>tv_sec = 2147483546, tv_usec = 0\<rparr>,
                             DriverCall 2 1 5 4096 10],
             ?s2\<lparr>mem := (mem ?s2)(2 := (mem ex_hub1 2)
                  \<lparr>trans_len := 4, status := KMO_COMM_TRANS_COMPLETED\<rparr>)\<rparr>)]. mem s' 1 = mem s1 1"
    using main hw by blast
  have b: "\<forall>ev\<in>set [Select 6 {5} {} \<lparr>tv_sec = 2147483546, tv_usec = 0\<rparr>, DriverCall 2 1 5 4096 10].
             event_transfer ev \<noteq> Some 1"
    using main w by blast
  have c: "7 \<notin> set (transfer_hash ex_hub1)" by (simp add: ex_hub1_def)
  have d: "kmo_transfer_hub_remove 7 ex_hub1 = ex_hub1" using main c by blast
  have st: "status (mem ?s2 1) = KMO_COMM_TRANS_PENDING" using main by blast
  show ?thesis
    apply (rule exI [of _ s1])
    apply (intro conjI)
          apply (rule add)
         apply (rule st)
        apply (rule h2)
       apply (rule exI, intro conjI, rule hw, simp, rule a)
      apply (rule exI, rule exI, intro conjI, rule w, simp, rule b)
     apply (rule c)
    apply (rule d)
    done
qed

lemma wait_idle:
  assumes "done_flag (scan_hub s)"
  shows "kmo_transfer_hub_wait es s = Some ([], Inr s)"
  using assms by (cases es) simp_all

lemma wait_busy_Nil:
  assumes "\<not> done_flag (scan_hub s)"
  shows "kmo_transfer_hub_wait [] s = None"
  using assms by simp

lemma wait_busy_Cons:
  assumes "\<not> done_flag (scan_hub s)"
  shows "kmo_transfer_hub_wait (e # es) s = None \<or>
         (\<exists>tr r. kmo_transfer_hub_wait (e # es) s = Some (select_call e s # tr, r))"
proof (cases "kmo_transfer_hub_wait (e # es) s")
  case None
  then show ?thesis by simp
next
  case (Some a)
  obtain tr r where a: "a = (tr, r)" by (cases a)
  from Some [unfolded a] have "\<exists>tr'. tr = select_call e s # tr'"
    using assms by (cases rule: wait_Cons_cases) simp_all
  then show ?thesis using Some a by blast
qed

lemma wait_busy_not_idle:
  assumes "\<not> done_flag (scan_hub s)"
  shows "kmo_transfer_hub_wait es s \<noteq> Some ([], r)"
proof (cases es)
  case Nil
  then show ?thesis using wait_busy_Nil [OF assms] by simp
next
  case (Cons e es')
  then show ?thesis using wait_busy_Cons [OF assms, of e es'] by auto
qed

text \<open>
  C2, as the code has it. The scan selects exactly the members that are pending, or
  completed with \<open>min_len < max_len\<close>. The call returns at once, with an empty log and the
  state untouched, exactly when no member is pending: completed members that are not full
  are selected, but they alone do not make the call block. When a member is pending the
  call goes on to \<^verbatim>\<open>select()\<close>: with nothing more to read from the outside world it does
  not return, and otherwise the first thing it does is that call of \<^verbatim>\<open>select()\<close>.
\<close>

theorem wait_returns_at_once_iff:
  "set (transfer_array (scan_hub s)) =
     {p \<in> set (transfer_hash s).
        status (mem s p) = KMO_COMM_TRANS_PENDING \<or>
        (status (mem s p) = KMO_COMM_TRANS_COMPLETED \<and> min_len (mem s p) < max_len (mem s p))} \<and>
   ((kmo_transfer_hub_wait es s = Some ([], Inr s)) =
      (\<forall>p\<in>set (transfer_hash s). status (mem s p) \<noteq> KMO_COMM_TRANS_PENDING)) \<and>
   ((\<exists>p\<in>set (transfer_hash s). status (mem s p) = KMO_COMM_TRANS_PENDING) \<longrightarrow>
      kmo_transfer_hub_wait [] s = None \<and>
      (\<forall>e es'. kmo_transfer_hub_wait (e # es') s = None \<or>
         (\<exists>tr r. kmo_transfer_hub_wait (e # es') s = Some (select_call e s # tr, r))))"
proof (intro conjI)
  show "set (transfer_array (scan_hub s)) =
     {p \<in> set (transfer_hash s).
        status (mem s p) = KMO_COMM_TRANS_PENDING \<or>
        (status (mem s p) = KMO_COMM_TRANS_COMPLETED \<and> min_len (mem s p) < max_len (mem s p))}"
    by (auto simp: scan_array unfinished_def)
  show "(kmo_transfer_hub_wait es s = Some ([], Inr s)) =
      (\<forall>p\<in>set (transfer_hash s). status (mem s p) \<noteq> KMO_COMM_TRANS_PENDING)"
    using wait_idle [of s es] wait_busy_not_idle [of s es "Inr s"]
    unfolding scan_done by blast
  show "(\<exists>p\<in>set (transfer_hash s). status (mem s p) = KMO_COMM_TRANS_PENDING) \<longrightarrow>
      kmo_transfer_hub_wait [] s = None \<and>
      (\<forall>e es'. kmo_transfer_hub_wait (e # es') s = None \<or>
         (\<exists>tr r. kmo_transfer_hub_wait (e # es') s = Some (select_call e s # tr, r)))"
    using wait_busy_Nil [of s] wait_busy_Cons [of s]
    unfolding scan_done by blast
qed

theorem wait_returns_at_once_iff_witness:
  "set (transfer_array (scan_hub ex_hub2)) = {2} \<and>
   kmo_transfer_hub_wait [ex_env] ex_hub2 = Some ([], Inr ex_hub2) \<and>
   kmo_transfer_hub_wait [] ex_hub1 = None \<and>
   (\<exists>tr r. kmo_transfer_hub_wait [ex_env] ex_hub1 = Some (select_call ex_env ex_hub1 # tr, r))"
proof -
  have np: "\<forall>p\<in>set (transfer_hash ex_hub2). status (mem ex_hub2 p) \<noteq> KMO_COMM_TRANS_PENDING"
    by (simp add: ex_hub2_def)
  have sel: "{p \<in> set (transfer_hash ex_hub2).
        status (mem ex_hub2 p) = KMO_COMM_TRANS_PENDING \<or>
        (status (mem ex_hub2 p) = KMO_COMM_TRANS_COMPLETED \<and>
         min_len (mem ex_hub2 p) < max_len (mem ex_hub2 p))} = {2}"
    by (auto simp: ex_hub2_def ex_transfer_def)
  have pe: "\<exists>p\<in>set (transfer_hash ex_hub1). status (mem ex_hub1 p) = KMO_COMM_TRANS_PENDING"
    by (simp add: ex_hub1_def)
  have some: "kmo_transfer_hub_wait [ex_env] ex_hub1 \<noteq> None"
    using ex_wait [of ex_hub1 "[]"] by (simp add: ex_hub1_def)
  note a = wait_returns_at_once_iff [of ex_hub2 "[ex_env]"]
  note b = wait_returns_at_once_iff [of ex_hub1 "[]"]
  have 1: "set (transfer_array (scan_hub ex_hub2)) = {2}" using a sel by simp
  have 2: "kmo_transfer_hub_wait [ex_env] ex_hub2 = Some ([], Inr ex_hub2)" using a np by blast
  have 3: "kmo_transfer_hub_wait [] ex_hub1 = None" using b pe by blast
  have "kmo_transfer_hub_wait [ex_env] ex_hub1 = None \<or>
        (\<exists>tr r. kmo_transfer_hub_wait [ex_env] ex_hub1 = Some (select_call ex_env ex_hub1 # tr, r))"
    using b pe by blast
  then have 4: "\<exists>tr r. kmo_transfer_hub_wait [ex_env] ex_hub1
                  = Some (select_call ex_env ex_hub1 # tr, r)"
    using some by blast
  from 1 2 3 4 show ?thesis by blast
qed

lemma ex_scan2:
  "scan_hub ex_hub2 = \<lparr>done_flag = True, read_set = {5}, write_set = {}, max_sock = 5,
    sel_deadline = \<lparr>tv_sec = 2147483647, tv_usec = 0\<rparr>, transfer_array = [2]\<rparr>"
  by (simp add: scan_hub_def scan_init_def scan_transfer_def unfinished_def ex_hub2_def
        util_timeval_cmp_def ex_transfer_def)

text \<open>
  C2 as stated fails: in the hub \<open>ex_hub2\<close> the only member is completed with \<open>4\<close> of at
  most \<open>10\<close> bytes, so the scan selects it, and \<^verbatim>\<open>select()\<close> would report its descriptor
  readable; the call still returns at once, without calling \<^verbatim>\<open>select()\<close>.
\<close>

theorem wait_selected_but_idle_counterexample:
  "transfer_array (scan_hub ex_hub2) = [2] \<and>
   status (mem ex_hub2 2) = KMO_COMM_TRANS_COMPLETED \<and>
   min_len (mem ex_hub2 2) < max_len (mem ex_hub2 2) \<and>
   kmo_transfer_hub_wait [ex_env] ex_hub2 = Some ([], Inr ex_hub2)"
proof -
  have "done_flag (scan_hub ex_hub2)" by (simp add: ex_scan2)
  then have "kmo_transfer_hub_wait [ex_env] ex_hub2 = Some ([], Inr ex_hub2)" by simp
  moreover have "status (mem ex_hub2 2) = KMO_COMM_TRANS_COMPLETED"
    "min_len (mem ex_hub2 2) < max_len (mem ex_hub2 2)"
    by (simp_all add: ex_hub2_def ex_transfer_def)
  ultimately show ?thesis by (simp add: ex_scan2)
qed

lemma resolve_success:
  assumes "is_ready rs ws t"
    and "max_len t = trans_len t \<or> drv_ret (drv e p (max_len t - trans_len t)) = 0"
  shows "resolve_transfer e rs ws p t =
    (if max_len t = trans_len t then []
     else [DriverCall p (if read_flag t then read_data (driver t) else write_data (driver t))
             (fd t) (buf t + unat (trans_len t)) (max_len t - trans_len t)],
     Inr (status t = KMO_COMM_TRANS_PENDING \<and>
            min_len t \<le> trans_len t + (if max_len t = trans_len t then 0
               else drv_len (drv e p (max_len t - trans_len t))),
          t\<lparr>trans_len := trans_len t + (if max_len t = trans_len t then 0
               else drv_len (drv e p (max_len t - trans_len t))),
            status := (if status t = KMO_COMM_TRANS_PENDING \<and>
                          min_len t \<le> trans_len t + (if max_len t = trans_len t then 0
                             else drv_len (drv e p (max_len t - trans_len t)))
                       then KMO_COMM_TRANS_COMPLETED else status t),
            deadline := (if op_timeout t \<noteq> 0 then timeout_deadline (op_timeout t) (now_after e)
                         else deadline t)\<rparr>))"
  using assms
  by (cases "max_len t = trans_len t")
     (simp_all add: resolve_transfer_def is_ready_def Let_def)

lemma resolve_wouldblock:
  assumes "is_ready rs ws t"
    and "max_len t \<noteq> trans_len t"
    and "drv_ret (drv e p (max_len t - trans_len t)) = - 2"
  shows "resolve_transfer e rs ws p t =
    ([DriverCall p (if read_flag t then read_data (driver t) else write_data (driver t))
             (fd t) (buf t + unat (trans_len t)) (max_len t - trans_len t)],
     Inr (False, t))"
  using assms by (simp add: resolve_transfer_def is_ready_def Let_def)

lemma resolve_failed:
  assumes "is_ready rs ws t"
    and "max_len t \<noteq> trans_len t"
    and "drv_ret (drv e p (max_len t - trans_len t)) = - 1"
  shows "resolve_transfer e rs ws p t =
    ([DriverCall p (if read_flag t then read_data (driver t) else write_data (driver t))
             (fd t) (buf t + unat (trans_len t)) (max_len t - trans_len t)],
     Inr (True, t\<lparr>status := KMO_COMM_TRANS_ERROR,
                   err_msg := Some (drv_errstr (drv e p (max_len t - trans_len t)))\<rparr>))"
  using assms by (simp add: resolve_transfer_def is_ready_def Let_def)

lemma resolve_array_fixed:
  assumes res: "resolve_array e rs ws ps m = (evs, Inr (d, m'))"
    and start: "m p = t0 \<or> m p = t1"
    and step0: "snd (resolve_transfer e rs ws p t0) = Inr (d0, t1)"
    and step1: "snd (resolve_transfer e rs ws p t1) = Inr (d1, t1)"
  shows "m' p = (if p \<in> set ps then t1 else m p)"
  using res start
proof (induction ps arbitrary: m evs d)
  case Nil
  then show ?case by simp
next
  case (Cons q ps)
  from Cons.prems(1) obtain evs1 dq tq evs2 d2 where
    rt: "resolve_transfer e rs ws q (m q) = (evs1, Inr (dq, tq))" and
    ra: "resolve_array e rs ws ps (m(q := tq)) = (evs2, Inr (d2, m'))"
    by (auto split: prod.splits sum.splits)
  show ?case
  proof (cases "q = p")
    case True
    have "tq = t1"
      using Cons.prems(2) rt step0 step1 unfolding True by auto
    then have "(m(q := tq)) p = t0 \<or> (m(q := tq)) p = t1" using True by simp
    from Cons.IH [OF ra this] show ?thesis using True \<open>tq = t1\<close> by simp
  next
    case False
    then have "(m(q := tq)) p = t0 \<or> (m(q := tq)) p = t1" using Cons.prems(2) by simp
    from Cons.IH [OF ra this] show ?thesis using False by auto
  qed
qed

lemma resolve_array_done:
  assumes res: "resolve_array e rs ws ps m = (evs, Inr (d, m'))"
    and mem: "p \<in> set ps"
    and start: "m p = t0"
    and step0: "snd (resolve_transfer e rs ws p t0) = Inr (True, t1)"
  shows "d"
  using res mem start
proof (induction ps arbitrary: m evs d)
  case Nil
  then show ?case by simp
next
  case (Cons q ps)
  from Cons.prems(1) obtain evs1 dq tq evs2 d2 where
    rt: "resolve_transfer e rs ws q (m q) = (evs1, Inr (dq, tq))" and
    ra: "resolve_array e rs ws ps (m(q := tq)) = (evs2, Inr (d2, m'))" and
    d: "d = (dq \<or> d2)"
    by (auto split: prod.splits sum.splits)
  show ?case
  proof (cases "q = p")
    case True
    then have "dq" using rt step0 Cons.prems(3) by simp
    then show ?thesis using d by simp
  next
    case False
    then have "p \<in> set ps" "(m(q := tq)) p = t0" using Cons.prems(2,3) by simp_all
    from Cons.IH [OF ra this] show ?thesis using d by simp
  qed
qed

text \<open>
  The loop runs to its end when the driver returns one of its three codes and every
  scanned transfer that is not reported ready has no error text.
\<close>

lemma resolve_transfer_no_abort:
  assumes "drv_ret (drv e p (max_len t - trans_len t)) \<in> {0, - 1, - 2}"
    and "err_msg t = None \<or> is_ready rs ws t"
  shows "\<exists>evs d t'. resolve_transfer e rs ws p t = (evs, Inr (d, t')) \<and>
           is_ready rs ws t' = is_ready rs ws t \<and>
           (err_msg t' = None \<or> is_ready rs ws t')"
proof (cases "is_ready rs ws t")
  case True
  let ?r = "drv_ret (drv e p (max_len t - trans_len t))"
  consider (ok) "max_len t = trans_len t \<or> ?r = 0"
    | (block) "max_len t \<noteq> trans_len t" "?r = - 2"
    | (fail) "max_len t \<noteq> trans_len t" "?r = - 1"
    using assms(1) by auto
  then show ?thesis
  proof cases
    case ok
    show ?thesis
      unfolding resolve_success [OF True ok] using True by (auto simp: is_ready_def)
  next
    case block
    show ?thesis
      unfolding resolve_wouldblock [OF True block] using True by auto
  next
    case fail
    show ?thesis
      unfolding resolve_failed [OF True fail] using True by (auto simp: is_ready_def)
  qed
next
  case False
  then have "err_msg t = None" using assms(2) by simp
  then show ?thesis
    using False by (auto simp: resolve_not_ready is_ready_def)
qed

lemma resolve_array_no_abort:
  assumes "\<forall>p nb. drv_ret (drv e p nb) \<in> {0, - 1, - 2}"
    and "\<forall>q\<in>set ps. err_msg (m q) = None \<or> is_ready rs ws (m q)"
  shows "\<exists>evs d m'. resolve_array e rs ws ps m = (evs, Inr (d, m'))"
  using assms(2)
proof (induction ps arbitrary: m)
  case Nil
  show ?case
    by (rule exI [of _ "[]"], rule exI [of _ False], rule exI [of _ m]) simp
next
  case (Cons q ps)
  have "drv_ret (drv e q (max_len (m q) - trans_len (m q))) \<in> {0, - 1, - 2}"
    using assms(1) by blast
  moreover have "err_msg (m q) = None \<or> is_ready rs ws (m q)" using Cons.prems by simp
  ultimately obtain evs1 dq tq where
    rt: "resolve_transfer e rs ws q (m q) = (evs1, Inr (dq, tq))" and
    tq: "err_msg tq = None \<or> is_ready rs ws tq"
    using resolve_transfer_no_abort by blast
  have "\<forall>x\<in>set ps. err_msg ((m(q := tq)) x) = None \<or> is_ready rs ws ((m(q := tq)) x)"
    using Cons.prems tq by simp
  from Cons.IH [OF this] obtain evs2 d2 m' where
    "resolve_array e rs ws ps (m(q := tq)) = (evs2, Inr (d2, m'))" by blast
  then show ?case using rt by simp
qed

lemma scan_transfer_read:
  "read_set (scan_transfer m sc q) =
     (if unfinished (m q) \<and> read_flag (m q) then insert (fd (m q)) (read_set sc) else read_set sc)"
  by (simp add: scan_transfer_def Let_def)

lemma scan_transfer_write:
  "write_set (scan_transfer m sc q) =
     (if unfinished (m q) \<and> \<not> read_flag (m q) then insert (fd (m q)) (write_set sc)
      else write_set sc)"
  by (simp add: scan_transfer_def Let_def)

lemma scan_read_foldl:
  "(x \<in> read_set (foldl (scan_transfer m) sc ps)) =
     (x \<in> read_set sc \<or> (\<exists>p\<in>set ps. unfinished (m p) \<and> read_flag (m p) \<and> fd (m p) = x))"
  by (induction ps arbitrary: sc) (auto simp: scan_transfer_read)

lemma scan_write_foldl:
  "(x \<in> write_set (foldl (scan_transfer m) sc ps)) =
     (x \<in> write_set sc \<or> (\<exists>p\<in>set ps. unfinished (m p) \<and> \<not> read_flag (m p) \<and> fd (m p) = x))"
  by (induction ps arbitrary: sc) (auto simp: scan_transfer_write)

lemma scan_ready:
  assumes "p \<in> set (transfer_array (scan_hub s))" and "select_ret e = SelectReady rr rw"
  shows "is_ready (ready_read e s) (ready_write e s) (mem s p) = is_ready rr rw (mem s p)"
proof -
  from assms(1) have sel: "p \<in> set (transfer_hash s)" "unfinished (mem s p)"
    by (simp_all add: scan_array)
  have r: "read_flag (mem s p) \<Longrightarrow> fd (mem s p) \<in> read_set (scan_hub s)"
    using sel unfolding scan_hub_def scan_read_foldl by blast
  have w: "\<not> read_flag (mem s p) \<Longrightarrow> fd (mem s p) \<in> write_set (scan_hub s)"
    using sel unfolding scan_hub_def scan_write_foldl by blast
  show ?thesis
    using r w by (auto simp: is_ready_def ready_read_def ready_write_def assms(2))
qed

lemma wait_first_pass:
  assumes "\<not> done_flag (scan_hub s)" and "select_ret e = SelectReady rr rw"
  shows "kmo_transfer_hub_wait (e # es) s =
     (case resolve_array e (ready_read e s) (ready_write e s) (transfer_array (scan_hub s)) (mem s) of
        (evs, Inl err) \<Rightarrow> Some (select_call e s # evs, Inl err)
      | (evs, Inr (d, m')) \<Rightarrow>
          if d then Some (select_call e s # evs, Inr (s\<lparr>mem := m'\<rparr>))
          else map_option (\<lambda>(tr, r). (select_call e s # evs @ tr, r))
                 (kmo_transfer_hub_wait es (s\<lparr>mem := m'\<rparr>)))"
  using assms
  by (simp add: Let_def select_call_def ready_read_def ready_write_def
        split: prod.splits sum.splits)

lemma resolve_transfer_error: "resolve_transfer e rs ws p t = (evs, Inl err) \<Longrightarrow> err = AssertFailed"
  by (auto simp: resolve_transfer_def Let_def split: if_splits)

lemma resolve_array_error: "resolve_array e rs ws ps m = (evs, Inl err) \<Longrightarrow> err = AssertFailed"
proof (induction ps arbitrary: m evs)
  case Nil
  then show ?case by simp
next
  case (Cons q ps)
  obtain evs1 r1 where rt: "resolve_transfer e rs ws q (m q) = (evs1, r1)"
    by (cases "resolve_transfer e rs ws q (m q)")
  show ?case
  proof (cases r1)
    case (Inl a)
    then show ?thesis using Cons.prems rt resolve_transfer_error by simp
  next
    case (Inr dt)
    obtain d t' where dt: "dt = (d, t')" by (cases dt)
    obtain evs2 r2 where ra: "resolve_array e rs ws ps (m(q := t')) = (evs2, r2)"
      by (cases "resolve_array e rs ws ps (m(q := t'))")
    from Cons.prems rt Inr dt ra have "r2 = Inl err" by (auto split: sum.splits)
    then show ?thesis using Cons.IH ra by simp
  qed
qed

text \<open>
  A pass in which the step of the scanned transfer at \<open>p\<close> sets \<^verbatim>\<open>done_flag\<close> ends the call,
  and leaves at \<open>p\<close> what that step made of it (\<open>t1\<close>, which a second look would not
  change), unless an assertion fails on the way.
\<close>

lemma wait_event_for:
  assumes nd: "\<not> done_flag (scan_hub s)"
    and sel: "select_ret e = SelectReady rr rw"
    and p: "p \<in> set (transfer_array (scan_hub s))"
    and step0: "snd (resolve_transfer e (ready_read e s) (ready_write e s) p (mem s p))
                  = Inr (True, t1)"
    and step1: "snd (resolve_transfer e (ready_read e s) (ready_write e s) p t1) = Inr (d1, t1)"
  shows "\<exists>evs r. resolve_array e (ready_read e s) (ready_write e s)
                    (transfer_array (scan_hub s)) (mem s) = (evs, r) \<and>
           kmo_transfer_hub_wait (e # es) s
             = Some (select_call e s # evs, map_sum id (\<lambda>(d, m'). s\<lparr>mem := m'\<rparr>) r) \<and>
           (r = Inl AssertFailed \<or> (\<exists>m'. r = Inr (True, m') \<and> m' p = t1))"
proof -
  obtain evs r where ra: "resolve_array e (ready_read e s) (ready_write e s)
                    (transfer_array (scan_hub s)) (mem s) = (evs, r)"
    by (cases "resolve_array e (ready_read e s) (ready_write e s)
                    (transfer_array (scan_hub s)) (mem s)")
  show ?thesis
  proof (cases r)
    case (Inl err)
    then have "err = AssertFailed" using ra resolve_array_error by blast
    then show ?thesis
      using ra Inl by (subst wait_first_pass [OF nd sel]) simp
  next
    case (Inr dm)
    obtain d m' where dm: "dm = (d, m')" by (cases dm)
    note ra' = ra [unfolded Inr dm]
    have d: "d" using resolve_array_done [OF ra' p refl step0] .
    have "mem s p = mem s p \<or> mem s p = t1" by simp
    from resolve_array_fixed [OF ra' this step0 step1] have "m' p = t1"
      using p by simp
    then show ?thesis
      using ra Inr dm d by (subst wait_first_pass [OF nd sel]) simp
  qed
qed

lemma wait_first_pass_no_abort:
  assumes "\<forall>q nb. drv_ret (drv e q nb) \<in> {0, - 1, - 2}"
    and "\<forall>q\<in>set (transfer_hash s). unfinished (mem s q) \<longrightarrow> err_msg (mem s q) = None"
  shows "\<exists>evs d m'. resolve_array e (ready_read e s) (ready_write e s)
                    (transfer_array (scan_hub s)) (mem s) = (evs, Inr (d, m'))"
proof (rule resolve_array_no_abort [OF assms(1)])
  show "\<forall>q\<in>set (transfer_array (scan_hub s)).
          err_msg (mem s q) = None \<or> is_ready (ready_read e s) (ready_write e s) (mem s q)"
    using assms(2) by (simp add: scan_array)
qed

lemma resolve_array_no_call:
  assumes "max_len (m p) = trans_len (m p)"
  shows "\<forall>ev\<in>set (fst (resolve_array e rs ws ps m)). event_transfer ev \<noteq> Some p"
  using assms
proof (induction ps arbitrary: m)
  case Nil
  then show ?case by simp
next
  case (Cons q ps)
  obtain evs1 r1 where rt: "resolve_transfer e rs ws q (m q) = (evs1, r1)"
    by (cases "resolve_transfer e rs ws q (m q)")
  have e1: "\<forall>ev\<in>set evs1. event_transfer ev \<noteq> Some p"
  proof (cases "q = p")
    case True
    have "evs1 = []"
      using rt Cons.prems unfolding True
      by (auto simp: resolve_transfer_def Let_def split: if_splits)
    then show ?thesis by simp
  next
    case False
    show ?thesis
    proof
      fix ev assume "ev \<in> set evs1"
      then have "ev \<in> set (fst (resolve_transfer e rs ws q (m q)))" using rt by simp
      from resolve_events [OF this] False show "event_transfer ev \<noteq> Some p" by simp
    qed
  qed
  show ?case
  proof (cases r1)
    case (Inl err)
    then show ?thesis using rt e1 by simp
  next
    case (Inr dt)
    obtain d t' where dt: "dt = (d, t')" by (cases dt)
    have keep: "max_len ((m(q := t')) p) = trans_len ((m(q := t')) p)"
    proof (cases "q = p")
      case True
      have "max_len t' = trans_len t'"
        using rt Inr dt Cons.prems unfolding True
        by (auto simp: resolve_transfer_def Let_def split: if_splits)
      then show ?thesis using True by simp
    next
      case False
      then show ?thesis using Cons.prems by simp
    qed
    obtain evs2 r2 where ra: "resolve_array e rs ws ps (m(q := t')) = (evs2, r2)"
      by (cases "resolve_array e rs ws ps (m(q := t'))")
    have "\<forall>ev\<in>set (fst (resolve_array e rs ws ps (m(q := t')))). event_transfer ev \<noteq> Some p"
      by (rule Cons.IH) (rule keep)
    then have e2: "\<forall>ev\<in>set evs2. event_transfer ev \<noteq> Some p"
      unfolding ra by simp
    have "fst (resolve_array e rs ws (q # ps) m) = evs1 @ evs2"
      using rt Inr dt ra by (simp split: sum.splits prod.splits)
    then show ?thesis using e1 e2 by auto
  qed
qed

text \<open>
  C5. Take a member that is completed with \<open>min_len < max_len\<close> and has bytes left to
  request, in a hub with a pending member (so that the call reaches \<^verbatim>\<open>select()\<close>). If
  \<^verbatim>\<open>select()\<close> reports its descriptor and the driver returns \<open>-1\<close>, the call ends with
  this pass and leaves the transfer with the error status and the driver's text, which
  \<^verbatim>\<open>kmo_data_transfer_err\<close> then returns. The only other way out is a failed
  assertion, which cannot happen when the driver keeps to its three return codes and
  no unfinished member carries an error text.
\<close>

theorem completed_then_failed:
  assumes mem: "p \<in> set (transfer_hash s)"
    and st: "status (mem s p) = KMO_COMM_TRANS_COMPLETED"
    and len: "min_len (mem s p) < max_len (mem s p)"
    and room: "trans_len (mem s p) \<noteq> max_len (mem s p)"
    and pend: "\<exists>q\<in>set (transfer_hash s). status (mem s q) = KMO_COMM_TRANS_PENDING"
    and sel: "select_ret e = SelectReady rr rw"
    and rdy: "is_ready rr rw (mem s p)"
    and fail: "drv_ret (drv e p (max_len (mem s p) - trans_len (mem s p))) = - 1"
  shows "\<exists>tr r. kmo_transfer_hub_wait (e # es) s = Some (tr, r) \<and>
           (r = Inl AssertFailed \<or>
            (\<exists>s'. r = Inr s' \<and>
               mem s' p = (mem s p)
                 \<lparr>status := KMO_COMM_TRANS_ERROR,
                  err_msg := Some (drv_errstr (drv e p (max_len (mem s p) - trans_len (mem s p))))\<rparr> \<and>
               kmo_data_transfer_err (mem s' p) =
                 Inr (drv_errstr (drv e p (max_len (mem s p) - trans_len (mem s p)))))) \<and>
           ((\<forall>q nb. drv_ret (drv e q nb) \<in> {0, - 1, - 2}) \<and>
            (\<forall>q\<in>set (transfer_hash s). unfinished (mem s q) \<longrightarrow> err_msg (mem s q) = None) \<longrightarrow>
            (\<exists>s'. r = Inr s'))"
proof -
  let ?t = "mem s p"
  let ?msg = "drv_errstr (drv e p (max_len ?t - trans_len ?t))"
  let ?t1 = "?t\<lparr>status := KMO_COMM_TRANS_ERROR, err_msg := Some ?msg\<rparr>"
  let ?rs = "ready_read e s" and ?ws = "ready_write e s"
  have nd: "\<not> done_flag (scan_hub s)" using pend by (simp add: scan_done)
  have p: "p \<in> set (transfer_array (scan_hub s))"
    using mem st len by (simp add: scan_array unfinished_def)
  have r0: "is_ready ?rs ?ws ?t" using scan_ready [OF p sel] rdy by simp
  then have r1: "is_ready ?rs ?ws ?t1" by (simp add: is_ready_def)
  have room': "max_len ?t \<noteq> trans_len ?t" using room by simp
  have step0: "snd (resolve_transfer e ?rs ?ws p ?t) = Inr (True, ?t1)"
    by (simp add: resolve_failed [OF r0 room' fail])
  have "max_len ?t1 \<noteq> trans_len ?t1"
    "drv_ret (drv e p (max_len ?t1 - trans_len ?t1)) = - 1"
    using room' fail by simp_all
  from resolve_failed [OF r1 this]
  have step1: "snd (resolve_transfer e ?rs ?ws p ?t1) = Inr (True, ?t1)" by simp
  from wait_event_for [OF nd sel p step0 step1, of es] obtain evs r where
    ra: "resolve_array e ?rs ?ws (transfer_array (scan_hub s)) (mem s) = (evs, r)" and
    w: "kmo_transfer_hub_wait (e # es) s
          = Some (select_call e s # evs, map_sum id (\<lambda>(d, m'). s\<lparr>mem := m'\<rparr>) r)" and
    r: "r = Inl AssertFailed \<or> (\<exists>m'. r = Inr (True, m') \<and> m' p = ?t1)"
    by blast
  let ?r = "map_sum id (\<lambda>(d, m'). s\<lparr>mem := m'\<rparr>) r"
  have a: "?r = Inl AssertFailed \<or>
            (\<exists>s'. ?r = Inr s' \<and> mem s' p = ?t1 \<and> kmo_data_transfer_err (mem s' p) = Inr ?msg)"
    using r by (auto simp: kmo_data_transfer_err_def)
  have b: "\<exists>s'. ?r = Inr s'"
    if "(\<forall>q nb. drv_ret (drv e q nb) \<in> {0, - 1, - 2}) \<and>
        (\<forall>q\<in>set (transfer_hash s). unfinished (mem s q) \<longrightarrow> err_msg (mem s q) = None)"
    using wait_first_pass_no_abort [of e s] that ra by auto
  from w a b show ?thesis by blast
qed

theorem completed_then_failed_witness:
  "\<exists>tr s'. kmo_transfer_hub_wait [ex_env_fail] ex_hub3 = Some (tr, Inr s') \<and>
      status (mem ex_hub3 2) = KMO_COMM_TRANS_COMPLETED \<and>
      status (mem s' 2) = KMO_COMM_TRANS_ERROR \<and>
      err_msg (mem s' 2) = Some ''connection reset'' \<and>
      kmo_data_transfer_err (mem s' 2) = Inr ''connection reset''"
proof -
  have h: "2 \<in> set (transfer_hash ex_hub3)"
    "status (mem ex_hub3 2) = KMO_COMM_TRANS_COMPLETED"
    "min_len (mem ex_hub3 2) < max_len (mem ex_hub3 2)"
    "trans_len (mem ex_hub3 2) \<noteq> max_len (mem ex_hub3 2)"
    "\<exists>q\<in>set (transfer_hash ex_hub3). status (mem ex_hub3 q) = KMO_COMM_TRANS_PENDING"
    "select_ret ex_env_fail = SelectReady {5} {}"
    "is_ready {5} {} (mem ex_hub3 2)"
    "drv_ret (drv ex_env_fail 2 (max_len (mem ex_hub3 2) - trans_len (mem ex_hub3 2))) = - 1"
    by (simp_all add: ex_hub3_def ex_transfer_def ex_env_fail_def is_ready_def)
  have c: "(\<forall>q nb. drv_ret (drv ex_env_fail q nb) \<in> {0, - 1, - 2}) \<and>
           (\<forall>q\<in>set (transfer_hash ex_hub3).
              unfinished (mem ex_hub3 q) \<longrightarrow> err_msg (mem ex_hub3 q) = None)"
    by (simp add: ex_hub3_def ex_env_fail_def)
  have msg: "drv_errstr (drv ex_env_fail 2 (max_len (mem ex_hub3 2) - trans_len (mem ex_hub3 2)))
               = ''connection reset''"
    by (simp add: ex_env_fail_def)
  from completed_then_failed [OF h, of "[]"] obtain tr r where
    w: "kmo_transfer_hub_wait [ex_env_fail] ex_hub3 = Some (tr, r)" and
    r: "r = Inl AssertFailed \<or>
        (\<exists>s'. r = Inr s' \<and>
           mem s' 2 = (mem ex_hub3 2)
              \<lparr>status := KMO_COMM_TRANS_ERROR, err_msg := Some ''connection reset''\<rparr> \<and>
           kmo_data_transfer_err (mem s' 2) = Inr ''connection reset'')" and
    ok: "\<exists>s'. r = Inr s'"
    unfolding msg using c by blast
  from r ok obtain s' where s': "r = Inr s'"
    "mem s' 2 = (mem ex_hub3 2)
              \<lparr>status := KMO_COMM_TRANS_ERROR, err_msg := Some ''connection reset''\<rparr>"
    "kmo_data_transfer_err (mem s' 2) = Inr ''connection reset''"
    by auto
  have "status (mem s' 2) = KMO_COMM_TRANS_ERROR" "err_msg (mem s' 2) = Some ''connection reset''"
    unfolding s'(2) by simp_all
  then show ?thesis using w s' h(2) by blast
qed

text \<open>
  C6. Register a transfer with \<open>min_len = 0\<close> and \<open>max_len = 0\<close> and call
  \<^verbatim>\<open>kmo_transfer_hub_wait\<close>. If the first \<^verbatim>\<open>select()\<close> reports its descriptor, the call ends
  with that pass, the log holds no driver call for the transfer, and the transfer is
  completed with \<open>trans_len = 0\<close> and no error text. The only other way out is a failed
  assertion on another member, which cannot happen when the driver keeps to its three
  return codes and no unfinished member carries an error text.
\<close>

theorem zero_length_completes:
  assumes add: "kmo_transfer_hub_add now p s = Inr s1"
    and zero: "min_len (mem s p) = 0" "max_len (mem s p) = 0"
    and sel: "select_ret e = SelectReady rr rw"
    and rdy: "is_ready rr rw (mem s p)"
  shows "\<exists>tr r. kmo_transfer_hub_wait (e # es) s1 = Some (tr, r) \<and>
           (\<forall>ev\<in>set tr. event_transfer ev \<noteq> Some p) \<and>
           (r = Inl AssertFailed \<or>
            (\<exists>s2. r = Inr s2 \<and>
               status (mem s2 p) = KMO_COMM_TRANS_COMPLETED \<and>
               trans_len (mem s2 p) = 0 \<and>
               err_msg (mem s2 p) = None)) \<and>
           ((\<forall>q nb. drv_ret (drv e q nb) \<in> {0, - 1, - 2}) \<and>
            (\<forall>q\<in>set (transfer_hash s). unfinished (mem s q) \<longrightarrow> err_msg (mem s q) = None) \<longrightarrow>
            (\<exists>s2. r = Inr s2))"
proof -
  note eq = add_Inr_eq [OF add]
  let ?t = "mem s1 p"
  let ?t1 = "?t\<lparr>status := KMO_COMM_TRANS_COMPLETED,
               deadline := (if op_timeout ?t \<noteq> 0 then timeout_deadline (op_timeout ?t) (now_after e)
                            else deadline ?t)\<rparr>"
  let ?rs = "ready_read e s1" and ?ws = "ready_write e s1"
  have t: "status ?t = KMO_COMM_TRANS_PENDING" "trans_len ?t = 0" "max_len ?t = 0"
    "min_len ?t = 0" "err_msg ?t = None" "fd ?t = fd (mem s p)" "read_flag ?t = read_flag (mem s p)"
    using zero by (simp_all add: eq)
  have hash: "p \<in> set (transfer_hash s1)" by (simp add: eq)
  have nd: "\<not> done_flag (scan_hub s1)" using hash t(1) by (auto simp: scan_done)
  have p: "p \<in> set (transfer_array (scan_hub s1))"
    using hash t(1) by (simp add: scan_array unfinished_def)
  have "is_ready rr rw ?t" using rdy t(6,7) by (simp add: is_ready_def)
  then have r0: "is_ready ?rs ?ws ?t" using scan_ready [OF p sel] by simp
  then have r1: "is_ready ?rs ?ws ?t1" by (simp add: is_ready_def)
  have step0: "snd (resolve_transfer e ?rs ?ws p ?t) = Inr (True, ?t1)"
    using t by (subst resolve_success [OF r0]) simp_all
  have step1: "snd (resolve_transfer e ?rs ?ws p ?t1) = Inr (False, ?t1)"
    using t by (subst resolve_success [OF r1]) simp_all
  from wait_event_for [OF nd sel p step0 step1, of es] obtain evs r where
    ra: "resolve_array e ?rs ?ws (transfer_array (scan_hub s1)) (mem s1) = (evs, r)" and
    w: "kmo_transfer_hub_wait (e # es) s1
          = Some (select_call e s1 # evs, map_sum id (\<lambda>(d, m'). s1\<lparr>mem := m'\<rparr>) r)" and
    r: "r = Inl AssertFailed \<or> (\<exists>m'. r = Inr (True, m') \<and> m' p = ?t1)"
    by blast
  let ?r = "map_sum id (\<lambda>(d, m'). s1\<lparr>mem := m'\<rparr>) r"
  have "max_len (mem s1 p) = trans_len (mem s1 p)" using t by simp
  then have "\<forall>ev\<in>set (fst (resolve_array e ?rs ?ws (transfer_array (scan_hub s1)) (mem s1))).
               event_transfer ev \<noteq> Some p"
    by (rule resolve_array_no_call)
  then have "\<forall>ev\<in>set evs. event_transfer ev \<noteq> Some p" unfolding ra by simp
  then have ev: "\<forall>ev\<in>set (select_call e s1 # evs). event_transfer ev \<noteq> Some p"
    by (simp add: select_call_def Let_def)
  have a: "?r = Inl AssertFailed \<or>
            (\<exists>s2. ?r = Inr s2 \<and> status (mem s2 p) = KMO_COMM_TRANS_COMPLETED \<and>
               trans_len (mem s2 p) = 0 \<and> err_msg (mem s2 p) = None)"
    using r t by auto
  have b: "\<exists>s2. ?r = Inr s2"
    if c: "(\<forall>q nb. drv_ret (drv e q nb) \<in> {0, - 1, - 2}) \<and>
        (\<forall>q\<in>set (transfer_hash s). unfinished (mem s q) \<longrightarrow> err_msg (mem s q) = None)"
  proof -
    have "\<forall>q\<in>set (transfer_hash s1). unfinished (mem s1 q) \<longrightarrow> err_msg (mem s1 q) = None"
      using c by (simp add: eq)
    from wait_first_pass_no_abort [of e s1] c this ra show ?thesis by auto
  qed
  from w ev a b show ?thesis by blast
qed

theorem zero_length_completes_witness:
  "\<exists>s1 tr s2. kmo_transfer_hub_add ex_now 3 ex_hub4 = Inr s1 \<and>
      kmo_transfer_hub_wait [ex_env7] s1 = Some (tr, Inr s2) \<and>
      (\<forall>ev\<in>set tr. event_transfer ev \<noteq> Some 3) \<and>
      status (mem s2 3) = KMO_COMM_TRANS_COMPLETED \<and>
      trans_len (mem s2 3) = 0 \<and>
      err_msg (mem s2 3) = None"
proof -
  have pre: "3 \<notin> set (transfer_hash ex_hub4)"
    "read_data (driver (mem ex_hub4 3)) \<noteq> 0"
    "write_data (driver (mem ex_hub4 3)) \<noteq> 0"
    "disconnect (driver (mem ex_hub4 3)) \<noteq> 0"
    "fd (mem ex_hub4 3) \<noteq> - 1"
    "min_len (mem ex_hub4 3) \<le> max_len (mem ex_hub4 3)"
    by (simp_all add: ex_hub4_def ex_transfer_def)
  obtain s1 where add: "kmo_transfer_hub_add ex_now 3 ex_hub4 = Inr s1"
    using add_result [OF pre] by blast
  have h: "min_len (mem ex_hub4 3) = 0" "max_len (mem ex_hub4 3) = 0"
    "select_ret ex_env7 = SelectReady {7} {}"
    "is_ready {7} {} (mem ex_hub4 3)"
    by (simp_all add: ex_hub4_def ex_transfer_def ex_env7_def is_ready_def)
  have c: "(\<forall>q nb. drv_ret (drv ex_env7 q nb) \<in> {0, - 1, - 2}) \<and>
           (\<forall>q\<in>set (transfer_hash ex_hub4).
              unfinished (mem ex_hub4 q) \<longrightarrow> err_msg (mem ex_hub4 q) = None)"
    by (simp add: ex_hub4_def ex_env7_def)
  from zero_length_completes [OF add h, of "[]"] obtain tr r where
    w: "kmo_transfer_hub_wait [ex_env7] s1 = Some (tr, r)" and
    ev: "\<forall>ev\<in>set tr. event_transfer ev \<noteq> Some 3" and
    r: "r = Inl AssertFailed \<or>
        (\<exists>s2. r = Inr s2 \<and> status (mem s2 3) = KMO_COMM_TRANS_COMPLETED \<and>
           trans_len (mem s2 3) = 0 \<and> err_msg (mem s2 3) = None)" and
    ok: "\<exists>s2. r = Inr s2"
    using c by blast
  from r ok obtain s2 where "r = Inr s2" "status (mem s2 3) = KMO_COMM_TRANS_COMPLETED"
    "trans_len (mem s2 3) = 0" "err_msg (mem s2 3) = None"
    by auto
  then show ?thesis using add w ev by blast
qed














lemma ex_mem5:
  "mem ex_hub5 2 = mem ex_hub1 2"
  "mem ex_hub5 3 = ex_transfer\<lparr>trans_len := 0, status := KMO_COMM_TRANS_PENDING,
                deadline := \<lparr>tv_sec = 102, tv_usec = 499000\<rparr>, err_msg := None\<rparr>"
  "transfer_hash ex_hub5 = [2, 3]"
  by (simp_all add: ex_hub5_def)

lemma ex_scan5:
  "scan_hub ex_hub5 = \<lparr>done_flag = False, read_set = {3, 5}, write_set = {}, max_sock = 5,
    sel_deadline = \<lparr>tv_sec = 102, tv_usec = 499000\<rparr>, transfer_array = [2, 3]\<rparr>"
  by (simp add: scan_hub_def scan_init_def scan_transfer_def unfinished_def ex_mem5 ex_mem2
        util_timeval_cmp_def ex_transfer_def)

lemma ex_resolve5:
  "resolve_transfer ex_env {3, 5} {} 3 (mem ex_hub5 3) =
   ([DriverCall 3 1 3 4096 10],
    Inr (True, (mem ex_hub5 3)\<lparr>trans_len := 4, status := KMO_COMM_TRANS_COMPLETED,
                  deadline := \<lparr>tv_sec = 102, tv_usec = 501000\<rparr>\<rparr>))"
  by (simp add: resolve_transfer_def ex_mem5 ex_transfer_def ex_env_def Let_def
        timeout_deadline_def timeout_timeval_def util_timeval_add_def)

lemma ex_resolve5_2:
  "resolve_transfer ex_env {3, 5} {} 2 (mem ex_hub1 2) =
   ([DriverCall 2 1 5 4096 10],
    Inr (True, (mem ex_hub1 2)\<lparr>trans_len := 4, status := KMO_COMM_TRANS_COMPLETED\<rparr>))"
  by (simp add: resolve_transfer_def ex_mem2 ex_transfer_def ex_env_def Let_def)

lemma ex_wait5:
  "kmo_transfer_hub_wait [ex_env] ex_hub5 =
   Some ([Select 6 {3, 5} {} \<lparr>tv_sec = 1, tv_usec = 499000\<rparr>,
          DriverCall 2 1 5 4096 10, DriverCall 3 1 3 4096 10],
         Inr (ex_hub5\<lparr>mem := (mem ex_hub5)
                (2 := (mem ex_hub1 2)\<lparr>trans_len := 4, status := KMO_COMM_TRANS_COMPLETED\<rparr>,
                 3 := (mem ex_hub5 3)\<lparr>trans_len := 4, status := KMO_COMM_TRANS_COMPLETED,
                         deadline := \<lparr>tv_sec = 102, tv_usec = 501000\<rparr>\<rparr>)\<rparr>))"
proof -
  have sr: "select_ret ex_env = SelectReady {3, 5} {}" by (simp add: ex_env_def)
  have nb: "now_before ex_env = \<lparr>tv_sec = 101, tv_usec = 0\<rparr>" by (simp add: ex_env_def)
  have st: "select_timeout \<lparr>tv_sec = 101, tv_usec = 0\<rparr> \<lparr>tv_sec = 102, tv_usec = 499000\<rparr>
              = \<lparr>tv_sec = 1, tv_usec = 499000\<rparr>"
    by (simp add: select_timeout_def util_timeval_add_def util_timeval_cmp_def
          util_timeval_subtract_def)
  show ?thesis
    by (simp add: ex_scan5 sr nb st ex_mem5(1) ex_resolve5_2 ex_resolve5)
qed



text \<open>What one turn of the second loop can make of a transfer.\<close>

lemma resolve_transfer_shape:
  assumes "resolve_transfer e rs ws p t = (evs, Inr (d, t'))"
  shows "t' = t \<or>
         (\<exists>x. t' = t\<lparr>status := KMO_COMM_TRANS_ERROR, err_msg := x\<rparr>) \<or>
         (\<exists>n. t' = t\<lparr>trans_len := n,
                    status := (if status t = KMO_COMM_TRANS_PENDING \<and> min_len t \<le> n
                               then KMO_COMM_TRANS_COMPLETED else status t),
                    deadline := (if op_timeout t \<noteq> 0
                                 then timeout_deadline (op_timeout t) (now_after e)
                                 else deadline t)\<rparr>)"
proof (cases "is_ready rs ws t")
  case False
  show ?thesis
  proof (cases "util_timeval_cmp (deadline t) (now_after e) = - 1")
    case True
    with assms False have em: "err_msg t = None" and t': "t' = t\<lparr>status := KMO_COMM_TRANS_ERROR\<rparr>"
      by (auto simp: resolve_not_ready split: if_splits)
    have "t' = t\<lparr>status := KMO_COMM_TRANS_ERROR, err_msg := None\<rparr>"
      unfolding t' using em by (cases t) simp
    then show ?thesis by blast
  next
    case nx: False
    with assms False show ?thesis by (simp add: resolve_not_ready)
  qed
next
  case True
  let ?nb = "max_len t - trans_len t"
  let ?r = "drv_ret (drv e p ?nb)"
  show ?thesis
  proof (cases "max_len t = trans_len t \<or> ?r = 0")
    case ok: True
    show ?thesis
      using assms unfolding resolve_success [OF True ok] by auto
  next
    case nok: False
    then have room: "max_len t \<noteq> trans_len t" and r: "?r \<noteq> 0" by simp_all
    show ?thesis
    proof (cases "?r = - 1")
      case True
      show ?thesis
        using assms unfolding resolve_failed [OF \<open>is_ready rs ws t\<close> room True] by auto
    next
      case False
      show ?thesis
      proof (cases "?r = - 2")
        case True
        show ?thesis
          using assms unfolding resolve_wouldblock [OF \<open>is_ready rs ws t\<close> room True] by auto
      next
        case False
        then have "snd (resolve_transfer e rs ws p t) = Inl AssertFailed"
          using \<open>is_ready rs ws t\<close> room r \<open>?r \<noteq> - 1\<close>
          by (simp add: resolve_transfer_def is_ready_def Let_def)
        then show ?thesis using assms by simp
      qed
    qed
  qed
qed

text \<open>
  Within one pass, a reported transfer whose deadline is the time read after \<^verbatim>\<open>select()\<close>
  plus its timeout keeps that deadline.
\<close>

lemma resolve_keeps_deadline:
  assumes "resolve_transfer e rs ws p t = (evs, Inr (d, t'))"
  shows "is_ready rs ws t \<and> op_timeout t \<noteq> 0 \<and>
           deadline t = timeout_deadline (op_timeout t) (now_after e) \<longrightarrow>
         is_ready rs ws t' \<and> op_timeout t' = op_timeout t \<and> deadline t' = deadline t"
  using resolve_transfer_shape [OF assms]
  by (auto simp: is_ready_def)

lemma resolve_array_keeps_deadline:
  assumes ra: "resolve_array e rs ws ps m = (evs, Inr (d, m'))"
    and "is_ready rs ws (m p)" and "op_timeout (m p) \<noteq> 0"
    and "deadline (m p) = timeout_deadline (op_timeout (m p)) (now_after e)"
  shows "deadline (m' p) = deadline (m p)"
proof -
  have "is_ready rs ws (m p) \<and> op_timeout (m p) \<noteq> 0 \<and>
           deadline (m p) = timeout_deadline (op_timeout (m p)) (now_after e) \<longrightarrow>
         is_ready rs ws (m' p) \<and> op_timeout (m' p) = op_timeout (m p) \<and>
           deadline (m' p) = deadline (m p)"
  proof (rule resolve_array_rel
      [where R = "\<lambda>t t'. is_ready rs ws t \<and> op_timeout t \<noteq> 0 \<and>
           deadline t = timeout_deadline (op_timeout t) (now_after e) \<longrightarrow>
         is_ready rs ws t' \<and> op_timeout t' = op_timeout t \<and> deadline t' = deadline t",
       OF _ _ _ ra])
    show "\<And>t. is_ready rs ws t \<and> op_timeout t \<noteq> 0 \<and>
           deadline t = timeout_deadline (op_timeout t) (now_after e) \<longrightarrow>
         is_ready rs ws t \<and> op_timeout t = op_timeout t \<and> deadline t = deadline t" by simp
    show "\<And>a b c.
         is_ready rs ws a \<and> op_timeout a \<noteq> 0 \<and>
           deadline a = timeout_deadline (op_timeout a) (now_after e) \<longrightarrow>
         is_ready rs ws b \<and> op_timeout b = op_timeout a \<and> deadline b = deadline a \<Longrightarrow>
         is_ready rs ws b \<and> op_timeout b \<noteq> 0 \<and>
           deadline b = timeout_deadline (op_timeout b) (now_after e) \<longrightarrow>
         is_ready rs ws c \<and> op_timeout c = op_timeout b \<and> deadline c = deadline b \<Longrightarrow>
         is_ready rs ws a \<and> op_timeout a \<noteq> 0 \<and>
           deadline a = timeout_deadline (op_timeout a) (now_after e) \<longrightarrow>
         is_ready rs ws c \<and> op_timeout c = op_timeout a \<and> deadline c = deadline a" by simp
    show "\<And>p t evs d t'. resolve_transfer e rs ws p t = (evs, Inr (d, t')) \<Longrightarrow>
         is_ready rs ws t \<and> op_timeout t \<noteq> 0 \<and>
           deadline t = timeout_deadline (op_timeout t) (now_after e) \<longrightarrow>
         is_ready rs ws t' \<and> op_timeout t' = op_timeout t \<and> deadline t' = deadline t"
      by (rule resolve_keeps_deadline)
  qed
  then show ?thesis using assms(2,3,4) by simp
qed

text \<open>
  A scanned transfer is taken through a turn of the second loop in the state in which the
  pass found it: the log of that turn is in the log of the pass, and after a successful
  turn the deadline is the one that turn computed.
\<close>

lemma resolve_array_first:
  assumes "resolve_array e rs ws ps m = (evs, Inr (d, m'))" and "p \<in> set ps"
  shows "set (fst (resolve_transfer e rs ws p (m p))) \<subseteq> set evs"
  using assms
proof (induction ps arbitrary: m evs d)
  case Nil
  then show ?case by simp
next
  case (Cons q ps)
  from Cons.prems(1) obtain evs1 dq tq evs2 d2 where
    rt: "resolve_transfer e rs ws q (m q) = (evs1, Inr (dq, tq))" and
    ra: "resolve_array e rs ws ps (m(q := tq)) = (evs2, Inr (d2, m'))" and
    evs: "evs = evs1 @ evs2"
    by (auto split: prod.splits sum.splits)
  show ?case
  proof (cases "q = p")
    case True
    then show ?thesis using rt evs by auto
  next
    case False
    then have "p \<in> set ps" using Cons.prems(2) by simp
    from Cons.IH [OF ra this] False evs show ?thesis by auto
  qed
qed

lemma resolve_array_success:
  assumes "resolve_array e rs ws ps m = (evs, Inr (d, m'))" and "p \<in> set ps"
    and rdy: "is_ready rs ws (m p)"
    and ok: "max_len (m p) = trans_len (m p) \<or>
             drv_ret (drv e p (max_len (m p) - trans_len (m p))) = 0"
    and T: "op_timeout (m p) \<noteq> 0"
  shows "deadline (m' p) = timeout_deadline (op_timeout (m p)) (now_after e)"
  using assms(1,2) rdy ok T
proof (induction ps arbitrary: m evs d)
  case Nil
  then show ?case by simp
next
  case (Cons q ps)
  from Cons.prems(1) obtain evs1 dq tq evs2 d2 where
    rt: "resolve_transfer e rs ws q (m q) = (evs1, Inr (dq, tq))" and
    ra: "resolve_array e rs ws ps (m(q := tq)) = (evs2, Inr (d2, m'))"
    by (auto split: prod.splits sum.splits)
  show ?case
  proof (cases "q = p")
    case True
    have e1: "(evs1, Inr (dq, tq)) = resolve_transfer e rs ws p (m p)" using rt True by simp
    from e1 [unfolded resolve_success [OF Cons.prems(3,4)]]
    have tq: "deadline tq = timeout_deadline (op_timeout (m p)) (now_after e)"
      "op_timeout tq = op_timeout (m p)" "is_ready rs ws tq"
      using Cons.prems(3,5) by (simp_all add: is_ready_def)
    have a: "is_ready rs ws ((m(q := tq)) p)" "op_timeout ((m(q := tq)) p) \<noteq> 0"
      "deadline ((m(q := tq)) p) = timeout_deadline (op_timeout ((m(q := tq)) p)) (now_after e)"
      using tq True Cons.prems(5) by simp_all
    from resolve_array_keeps_deadline [OF ra a] show ?thesis using tq True by simp
  next
    case False
    then have "p \<in> set ps" using Cons.prems(2) by simp
    from Cons.IH [OF ra this] False Cons.prems(3,4,5) show ?thesis by simp
  qed
qed

text \<open>
  C7. A pass of \<^verbatim>\<open>kmo_transfer_hub_wait\<close> in a hub with a pending member (so that the pass
  happens), for a scanned member \<open>p\<close> whose descriptor \<^verbatim>\<open>select()\<close> reports. The call is this
  pass and, when the pass set no \<^verbatim>\<open>done_flag\<close>, the call that goes on from the store \<open>m'\<close>
  the pass left. Unless an assertion fails, that store is as follows. When the driver
  returned \<open>0\<close> for \<open>p\<close>, or was not called because no byte remained, and the timeout is
  not \<open>0\<close>, the deadline of \<open>p\<close> is the time read after \<^verbatim>\<open>select()\<close> plus the timeout
  (\<open>1000 * op_timeout\<close> microseconds later), whatever the driver's byte count, \<open>0\<close>
  included. When the driver returned \<open>-2\<close>, the struct of \<open>p\<close> is exactly as it was before
  the pass, and the log shows the call of the driver. No assertion fails when the driver
  keeps to its three return codes and no unfinished member carries an error text.
\<close>

theorem readiness_cycle_deadline:
  assumes pend: "\<exists>q\<in>set (transfer_hash s). status (mem s q) = KMO_COMM_TRANS_PENDING"
    and mem: "p \<in> set (transfer_hash s)"
    and unf: "unfinished (mem s p)"
    and sel: "select_ret e = SelectReady rr rw"
    and rdy: "is_ready rr rw (mem s p)"
  shows "\<exists>evs r.
      resolve_array e (ready_read e s) (ready_write e s) (transfer_array (scan_hub s)) (mem s)
        = (evs, r) \<and>
      kmo_transfer_hub_wait (e # es) s =
        (case r of
           Inl err \<Rightarrow> Some (select_call e s # evs, Inl err)
         | Inr (d, m') \<Rightarrow>
             if d then Some (select_call e s # evs, Inr (s\<lparr>mem := m'\<rparr>))
             else map_option (\<lambda>(tr, x). (select_call e s # evs @ tr, x))
                    (kmo_transfer_hub_wait es (s\<lparr>mem := m'\<rparr>))) \<and>
      (r = Inl AssertFailed \<or>
       (\<exists>d m'. r = Inr (d, m') \<and>
          ((max_len (mem s p) = trans_len (mem s p) \<or>
            drv_ret (drv e p (max_len (mem s p) - trans_len (mem s p))) = 0) \<and>
           op_timeout (mem s p) \<noteq> 0 \<longrightarrow>
             deadline (m' p) = util_timeval_add (timeout_timeval (op_timeout (mem s p))) (now_after e) \<and>
             tv_usecs (deadline (m' p)) = tv_usecs (now_after e) + 1000 * uint (op_timeout (mem s p))) \<and>
          (max_len (mem s p) \<noteq> trans_len (mem s p) \<and>
           drv_ret (drv e p (max_len (mem s p) - trans_len (mem s p))) = - 2 \<longrightarrow>
             m' p = mem s p \<and>
             DriverCall p (if read_flag (mem s p) then read_data (driver (mem s p))
                           else write_data (driver (mem s p)))
               (fd (mem s p)) (buf (mem s p) + unat (trans_len (mem s p)))
               (max_len (mem s p) - trans_len (mem s p)) \<in> set evs))) \<and>
      ((\<forall>q nb. drv_ret (drv e q nb) \<in> {0, - 1, - 2}) \<and>
       (\<forall>q\<in>set (transfer_hash s). unfinished (mem s q) \<longrightarrow> err_msg (mem s q) = None) \<longrightarrow>
       (\<exists>d m'. r = Inr (d, m')))"
proof -
  let ?t = "mem s p"
  let ?rs = "ready_read e s" and ?ws = "ready_write e s"
  have nd: "\<not> done_flag (scan_hub s)" using pend by (simp add: scan_done)
  have p: "p \<in> set (transfer_array (scan_hub s))" using mem unf by (simp add: scan_array)
  have r0: "is_ready ?rs ?ws ?t" using scan_ready [OF p sel] rdy by simp
  obtain evs r where ra: "resolve_array e ?rs ?ws (transfer_array (scan_hub s)) (mem s) = (evs, r)"
    by (cases "resolve_array e ?rs ?ws (transfer_array (scan_hub s)) (mem s)")
  have w: "kmo_transfer_hub_wait (e # es) s =
        (case r of
           Inl err \<Rightarrow> Some (select_call e s # evs, Inl err)
         | Inr (d, m') \<Rightarrow>
             if d then Some (select_call e s # evs, Inr (s\<lparr>mem := m'\<rparr>))
             else map_option (\<lambda>(tr, x). (select_call e s # evs @ tr, x))
                    (kmo_transfer_hub_wait es (s\<lparr>mem := m'\<rparr>)))"
    unfolding wait_first_pass [OF nd sel] ra by (simp split: sum.splits)
  have a: "r = Inl AssertFailed \<or>
       (\<exists>d m'. r = Inr (d, m') \<and>
          ((max_len ?t = trans_len ?t \<or> drv_ret (drv e p (max_len ?t - trans_len ?t)) = 0) \<and>
           op_timeout ?t \<noteq> 0 \<longrightarrow>
             deadline (m' p) = util_timeval_add (timeout_timeval (op_timeout ?t)) (now_after e) \<and>
             tv_usecs (deadline (m' p)) = tv_usecs (now_after e) + 1000 * uint (op_timeout ?t)) \<and>
          (max_len ?t \<noteq> trans_len ?t \<and> drv_ret (drv e p (max_len ?t - trans_len ?t)) = - 2 \<longrightarrow>
             m' p = ?t \<and>
             DriverCall p (if read_flag ?t then read_data (driver ?t) else write_data (driver ?t))
               (fd ?t) (buf ?t + unat (trans_len ?t)) (max_len ?t - trans_len ?t) \<in> set evs))"
  proof (cases r)
    case (Inl err)
    then show ?thesis using ra resolve_array_error by blast
  next
    case (Inr dm)
    obtain d m' where dm: "dm = (d, m')" by (cases dm)
    note ra' = ra [unfolded Inr dm]
    have ok: "deadline (m' p) = util_timeval_add (timeout_timeval (op_timeout ?t)) (now_after e) \<and>
             tv_usecs (deadline (m' p)) = tv_usecs (now_after e) + 1000 * uint (op_timeout ?t)"
      if h: "(max_len ?t = trans_len ?t \<or> drv_ret (drv e p (max_len ?t - trans_len ?t)) = 0) \<and>
           op_timeout ?t \<noteq> 0"
    proof -
      from h have h1: "max_len ?t = trans_len ?t \<or> drv_ret (drv e p (max_len ?t - trans_len ?t)) = 0"
        and ot: "op_timeout ?t \<noteq> 0" by simp_all
      from resolve_array_success [OF ra' p r0 h1 ot]
      show ?thesis by (simp add: timeout_deadline_def tv_usecs_add tv_usecs_timeout)
    qed
    have blk: "m' p = ?t \<and>
             DriverCall p (if read_flag ?t then read_data (driver ?t) else write_data (driver ?t))
               (fd ?t) (buf ?t + unat (trans_len ?t)) (max_len ?t - trans_len ?t) \<in> set evs"
      if h: "max_len ?t \<noteq> trans_len ?t \<and> drv_ret (drv e p (max_len ?t - trans_len ?t)) = - 2"
    proof -
      from h have h1: "max_len ?t \<noteq> trans_len ?t"
        and h2: "drv_ret (drv e p (max_len ?t - trans_len ?t)) = - 2" by simp_all
      note rb = resolve_wouldblock [OF r0 h1 h2]
      have st: "snd (resolve_transfer e ?rs ?ws p ?t) = Inr (False, ?t)" by (simp add: rb)
      have "mem s p = ?t \<or> mem s p = ?t" by simp
      from resolve_array_fixed [OF ra' this st st] p have 1: "m' p = ?t" by simp
      from resolve_array_first [OF ra' p] have 2:
        "DriverCall p (if read_flag ?t then read_data (driver ?t) else write_data (driver ?t))
               (fd ?t) (buf ?t + unat (trans_len ?t)) (max_len ?t - trans_len ?t) \<in> set evs"
        unfolding rb by simp
      from 1 2 show ?thesis by simp
    qed
    show ?thesis using Inr dm ok blk by blast
  qed
  have b: "\<exists>d m'. r = Inr (d, m')"
    if "(\<forall>q nb. drv_ret (drv e q nb) \<in> {0, - 1, - 2}) \<and>
        (\<forall>q\<in>set (transfer_hash s). unfinished (mem s q) \<longrightarrow> err_msg (mem s q) = None)"
    using wait_first_pass_no_abort [of e s] that ra by auto
  from ra w a b show ?thesis by blast
qed

lemma ex_mem5_facts:
  "\<exists>q\<in>set (transfer_hash ex_hub5). status (mem ex_hub5 q) = KMO_COMM_TRANS_PENDING"
  "3 \<in> set (transfer_hash ex_hub5)"
  "unfinished (mem ex_hub5 3)"
  "is_ready {3, 5} {} (mem ex_hub5 3)"
  "status (mem ex_hub5 3) = KMO_COMM_TRANS_PENDING"
  "\<forall>q\<in>set (transfer_hash ex_hub5). unfinished (mem ex_hub5 q) \<longrightarrow> err_msg (mem ex_hub5 q) = None"
  "op_timeout (mem ex_hub5 3) = 1500"
  "max_len (mem ex_hub5 3) - trans_len (mem ex_hub5 3) = 10"
  by (simp_all add: ex_mem5 ex_mem2 unfinished_def is_ready_def ex_transfer_def)

theorem readiness_cycle_deadline_witness:
  "3 \<in> set (transfer_hash ex_hub5) \<and>
   status (mem ex_hub5 3) = KMO_COMM_TRANS_PENDING \<and>
   select_ret ex_env = SelectReady {3, 5} {} \<and>
   select_ret ex_env_block = SelectReady {3, 5} {} \<and>
   is_ready {3, 5} {} (mem ex_hub5 3) \<and>
   drv_ret (drv ex_env 3 10) = 0 \<and>
   drv_ret (drv ex_env_block 3 10) = - 2 \<and>
   (\<exists>evs d m'. resolve_array ex_env (ready_read ex_env ex_hub5) (ready_write ex_env ex_hub5)
                  (transfer_array (scan_hub ex_hub5)) (mem ex_hub5) = (evs, Inr (d, m')) \<and>
      deadline (m' 3) = \<lparr>tv_sec = 102, tv_usec = 501000\<rparr>) \<and>
   (\<exists>evs d m'. resolve_array ex_env_block (ready_read ex_env_block ex_hub5)
                  (ready_write ex_env_block ex_hub5)
                  (transfer_array (scan_hub ex_hub5)) (mem ex_hub5) = (evs, Inr (d, m')) \<and>
      m' 3 = mem ex_hub5 3 \<and> DriverCall 3 1 3 4096 10 \<in> set evs) \<and>
   (\<exists>tr s'. kmo_transfer_hub_wait [ex_env] ex_hub5 = Some (tr, Inr s') \<and>
      deadline (mem s' 3) = \<lparr>tv_sec = 102, tv_usec = 501000\<rparr>)"
proof -
  have sr: "select_ret ex_env = SelectReady {3, 5} {}"
    "select_ret ex_env_block = SelectReady {3, 5} {}"
    by (simp_all add: ex_env_def ex_env_block_def)
  have dr: "drv_ret (drv ex_env 3 10) = 0" "drv_ret (drv ex_env_block 3 10) = - 2"
    by (simp_all add: ex_env_def ex_env_block_def)
  have codes: "\<forall>q nb. drv_ret (drv ex_env q nb) \<in> {0, - 1, - 2}"
    "\<forall>q nb. drv_ret (drv ex_env_block q nb) \<in> {0, - 1, - 2}"
    by (simp_all add: ex_env_def ex_env_block_def)
  have dl: "util_timeval_add (timeout_timeval 1500) (now_after ex_env)
              = \<lparr>tv_sec = 102, tv_usec = 501000\<rparr>"
    by (simp add: ex_env_def util_timeval_add_def timeout_timeval_def)
  have t3: "read_flag (mem ex_hub5 3)" "read_data (driver (mem ex_hub5 3)) = 1"
    "fd (mem ex_hub5 3) = 3" "buf (mem ex_hub5 3) + unat (trans_len (mem ex_hub5 3)) = 4096"
    "max_len (mem ex_hub5 3) \<noteq> trans_len (mem ex_hub5 3)"
    by (simp_all add: ex_mem5 ex_transfer_def)
  from readiness_cycle_deadline [OF ex_mem5_facts(1,2,3) sr(1) ex_mem5_facts(4), of "[]"]
  obtain evs r where
    ra: "resolve_array ex_env (ready_read ex_env ex_hub5) (ready_write ex_env ex_hub5)
                  (transfer_array (scan_hub ex_hub5)) (mem ex_hub5) = (evs, r)" and
    r: "r = Inl AssertFailed \<or>
       (\<exists>d m'. r = Inr (d, m') \<and>
          deadline (m' 3) = \<lparr>tv_sec = 102, tv_usec = 501000\<rparr>)" and
    ok: "\<exists>d m'. r = Inr (d, m')"
    unfolding ex_mem5_facts(7,8) dl using dr(1) codes(1) ex_mem5_facts(6) by auto
  from r ok ra have A: "\<exists>evs d m'. resolve_array ex_env (ready_read ex_env ex_hub5)
                  (ready_write ex_env ex_hub5)
                  (transfer_array (scan_hub ex_hub5)) (mem ex_hub5) = (evs, Inr (d, m')) \<and>
      deadline (m' 3) = \<lparr>tv_sec = 102, tv_usec = 501000\<rparr>"
    by auto
  from readiness_cycle_deadline [OF ex_mem5_facts(1,2,3) sr(2) ex_mem5_facts(4), of "[]"]
  obtain evs2 r2 where
    ra2: "resolve_array ex_env_block (ready_read ex_env_block ex_hub5)
                  (ready_write ex_env_block ex_hub5)
                  (transfer_array (scan_hub ex_hub5)) (mem ex_hub5) = (evs2, r2)" and
    r2: "r2 = Inl AssertFailed \<or>
       (\<exists>d m'. r2 = Inr (d, m') \<and> m' 3 = mem ex_hub5 3 \<and> DriverCall 3 1 3 4096 10 \<in> set evs2)" and
    ok2: "\<exists>d m'. r2 = Inr (d, m')"
    unfolding ex_mem5_facts(8) using dr(2) codes(2) ex_mem5_facts(6) t3 by auto
  from r2 ok2 ra2 have B: "\<exists>evs d m'. resolve_array ex_env_block (ready_read ex_env_block ex_hub5)
                  (ready_write ex_env_block ex_hub5)
                  (transfer_array (scan_hub ex_hub5)) (mem ex_hub5) = (evs, Inr (d, m')) \<and>
      m' 3 = mem ex_hub5 3 \<and> DriverCall 3 1 3 4096 10 \<in> set evs"
    by auto
  have C: "\<exists>tr s'. kmo_transfer_hub_wait [ex_env] ex_hub5 = Some (tr, Inr s') \<and>
      deadline (mem s' 3) = \<lparr>tv_sec = 102, tv_usec = 501000\<rparr>"
    unfolding ex_wait5 by simp
  show ?thesis
    by (intro conjI) (rule ex_mem5_facts sr dr A B C)+
qed














lemma select_timeout_usecs:
  assumes "tv_normal now" and "tv_normal dl"
  shows "tv_usecs (select_timeout now dl) = max 1000 (tv_usecs dl - tv_usecs now)"
    and "tv_normal (select_timeout now dl)"
    and "tv_usecs dl \<le> tv_usecs now + 1000 \<Longrightarrow> select_timeout now dl = \<lparr>tv_sec = 0, tv_usec = 1000\<rparr>"
proof -
  let ?m = "\<lparr>tv_sec = 0, tv_usec = 1000\<rparr>"
  let ?w = "util_timeval_add now ?m"
  have m: "tv_normal ?m" "tv_usecs ?m = 1000" by (simp_all add: tv_normal_def tv_usecs_def)
  have w: "tv_normal ?w" "tv_usecs ?w = tv_usecs now + 1000"
    using tv_normal_add [OF assms(1) m(1)] m(2) by (simp_all add: tv_usecs_add)
  have c: "(0 \<le> util_timeval_cmp ?w dl) = (tv_usecs dl \<le> tv_usecs now + 1000)"
    unfolding tv_cmp_usecs [OF w(1) assms(2)] w(2) by auto
  have eq: "select_timeout now dl =
              (if tv_usecs dl \<le> tv_usecs now + 1000 then ?m else util_timeval_subtract dl now)"
    unfolding select_timeout_def Let_def c ..
  show "tv_usecs (select_timeout now dl) = max 1000 (tv_usecs dl - tv_usecs now)"
    unfolding eq using m(2) by (simp add: tv_usecs_subtract)
  show "tv_normal (select_timeout now dl)"
    unfolding eq using m(1) tv_normal_subtract [OF assms(2,1)] by simp
  show "tv_usecs dl \<le> tv_usecs now + 1000 \<Longrightarrow> select_timeout now dl = ?m"
    unfolding eq by simp
qed

lemma scan_deadline:
  assumes "\<forall>p\<in>set (transfer_hash s). unfinished (mem s p) \<longrightarrow> tv_normal (deadline (mem s p))"
  shows "tv_normal (sel_deadline (scan_hub s))"
    and "tv_usecs (sel_deadline (scan_hub s)) = Min (insert 2147483647000000 (selected_deadlines s))"
proof -
  have n: "tv_normal (sel_deadline scan_init)" by (simp add: scan_init_def tv_normal_def)
  have u: "tv_usecs (sel_deadline scan_init) = 2147483647000000"
    by (simp add: scan_init_def tv_usecs_def)
  note a = scan_deadline_foldl [OF n assms, unfolded u]
  show "tv_normal (sel_deadline (scan_hub s))" unfolding scan_hub_def using a by (rule conjunct1)
  show "tv_usecs (sel_deadline (scan_hub s)) = Min (insert 2147483647000000 (selected_deadlines s))"
    unfolding scan_hub_def selected_deadlines_def using a by (rule conjunct2)
qed

lemma Min_insert_absorb:
  fixes a :: int
  assumes "finite S" and "d \<in> S" and "d \<le> a"
  shows "Min (insert a S) = Min S"
proof -
  have ne: "S \<noteq> {}" using assms(2) by auto
  have "Min S \<le> d" using assms(1,2) by simp
  then have "Min S \<le> a" using assms(3) by simp
  moreover have "Min (insert a S) = min a (Min S)" using assms(1) ne by (rule Min_insert)
  ultimately show ?thesis by (simp add: min_def)
qed

lemma finite_selected_deadlines: "finite (selected_deadlines s)"
  by (simp add: selected_deadlines_def)

text \<open>
  The time that a pass hands to \<^verbatim>\<open>select()\<close>, with the clock and the deadlines of the
  selected members in normal form. In microseconds it is the least of the selected deadlines
  and of the time 2147483647 seconds (where the scan starts its minimum), minus the time
  read before \<^verbatim>\<open>select()\<close>, and at least 1000: it is exactly one millisecond when that least
  value is at most one millisecond ahead, and never zero or negative. Whenever some selected
  deadline is no later than 2147483647 seconds, this is the least selected deadline minus
  the current time, floored at one millisecond. A call with a pending member hands exactly
  this time to its first \<^verbatim>\<open>select()\<close>.
\<close>

lemma select_call_duration:
  assumes "tv_normal (now_before e)"
    and "\<forall>p\<in>set (transfer_hash s). unfinished (mem s p) \<longrightarrow> tv_normal (deadline (mem s p))"
  shows "\<exists>n rs ws tw. select_call e s = Select n rs ws tw \<and>
           tv_normal tw \<and>
           tv_usecs tw = spec_wait_usecs (tv_usecs (now_before e))
                           (insert 2147483647000000 (selected_deadlines s)) \<and>
           1000 \<le> tv_usecs tw \<and>
           (Min (insert 2147483647000000 (selected_deadlines s)) \<le> tv_usecs (now_before e) + 1000
              \<longrightarrow> tw = \<lparr>tv_sec = 0, tv_usec = 1000\<rparr>) \<and>
           ((\<exists>d\<in>selected_deadlines s. d \<le> 2147483647000000) \<longrightarrow>
              tv_usecs tw = spec_wait_usecs (tv_usecs (now_before e)) (selected_deadlines s)) \<and>
           ((\<exists>p\<in>set (transfer_hash s). status (mem s p) = KMO_COMM_TRANS_PENDING) \<longrightarrow>
              kmo_transfer_hub_wait (e # es) s = None \<or>
              (\<exists>tr r. kmo_transfer_hub_wait (e # es) s = Some (Select n rs ws tw # tr, r)))"
proof -
  let ?dl = "sel_deadline (scan_hub s)"
  let ?tw = "select_timeout (now_before e) ?dl"
  let ?D = "insert 2147483647000000 (selected_deadlines s)"
  note dl = scan_deadline [OF assms(2)]
  note st = select_timeout_usecs [OF assms(1) dl(1)]
  have sc: "select_call e s =
              Select (max_sock (scan_hub s) + 1) (read_set (scan_hub s)) (write_set (scan_hub s)) ?tw"
    by (simp add: select_call_def Let_def)
  have 1: "tv_usecs ?tw = spec_wait_usecs (tv_usecs (now_before e)) ?D"
    unfolding st(1) dl(2) spec_wait_usecs_def ..
  have 2: "1000 \<le> tv_usecs ?tw" unfolding st(1) by simp
  have 3: "Min ?D \<le> tv_usecs (now_before e) + 1000 \<longrightarrow> ?tw = \<lparr>tv_sec = 0, tv_usec = 1000\<rparr>"
    using st(3) unfolding dl(2) by blast
  have 4: "(\<exists>d\<in>selected_deadlines s. d \<le> 2147483647000000) \<longrightarrow>
              tv_usecs ?tw = spec_wait_usecs (tv_usecs (now_before e)) (selected_deadlines s)"
  proof
    assume "\<exists>d\<in>selected_deadlines s. d \<le> 2147483647000000"
    then obtain d where "d \<in> selected_deadlines s" "d \<le> 2147483647000000" by blast
    from Min_insert_absorb [OF finite_selected_deadlines this]
    show "tv_usecs ?tw = spec_wait_usecs (tv_usecs (now_before e)) (selected_deadlines s)"
      unfolding 1 spec_wait_usecs_def by simp
  qed
  have 5: "(\<exists>p\<in>set (transfer_hash s). status (mem s p) = KMO_COMM_TRANS_PENDING) \<longrightarrow>
              kmo_transfer_hub_wait (e # es) s = None \<or>
              (\<exists>tr r. kmo_transfer_hub_wait (e # es) s =
                 Some (Select (max_sock (scan_hub s) + 1) (read_set (scan_hub s))
                         (write_set (scan_hub s)) ?tw # tr, r))"
    using wait_busy_Cons [of s e es] unfolding scan_done sc by blast
  show ?thesis
    by (intro exI conjI) (rule sc st(2) 1 2 3 4 5)+
qed

lemma ex_selected5: "selected_deadlines ex_hub5 = {2147483647000000, 102499000}"
proof -
  have "{p \<in> set (transfer_hash ex_hub5). unfinished (mem ex_hub5 p)} = {2, 3}"
    by (auto simp: ex_mem5 ex_mem2 unfinished_def)
  then show ?thesis
    by (simp add: selected_deadlines_def ex_mem5 ex_mem2 tv_usecs_def)
qed

lemma ex_mem_late:
  "mem ex_hub_late 3 = ex_transfer\<lparr>trans_len := 0, status := KMO_COMM_TRANS_PENDING,
                deadline := \<lparr>tv_sec = 2147483648, tv_usec = 500000\<rparr>, err_msg := None\<rparr>"
  "transfer_hash ex_hub_late = [3]"
  by (simp_all add: ex_hub_late_def)

lemma ex_selected_late: "selected_deadlines ex_hub_late = {2147483648500000}"
proof -
  have "{p \<in> set (transfer_hash ex_hub_late). unfinished (mem ex_hub_late p)} = {3}"
    by (auto simp: ex_mem_late unfinished_def)
  then show ?thesis
    by (simp add: selected_deadlines_def ex_mem_late tv_usecs_def)
qed

lemma ex_scan_late:
  "scan_hub ex_hub_late = \<lparr>done_flag = False, read_set = {3}, write_set = {}, max_sock = 3,
    sel_deadline = \<lparr>tv_sec = 2147483647, tv_usec = 0\<rparr>, transfer_array = [3]\<rparr>"
  by (simp add: scan_hub_def scan_init_def scan_transfer_def unfinished_def ex_mem_late
        util_timeval_cmp_def ex_transfer_def)

lemma ex_select_late:
  "select_call ex_env_late ex_hub_late = Select 4 {3} {} \<lparr>tv_sec = 0, tv_usec = 1000\<rparr>"
  by (simp add: select_call_def ex_scan_late ex_env_late_def select_timeout_def
        util_timeval_add_def util_timeval_cmp_def)

lemma ex_add_late:
  "kmo_transfer_hub_add \<lparr>tv_sec = 2147483647, tv_usec = 0\<rparr> 3 ex_hub = Inr ex_hub_late"
proof -
  have pre: "3 \<notin> set (transfer_hash ex_hub)"
    "read_data (driver (mem ex_hub 3)) \<noteq> 0"
    "write_data (driver (mem ex_hub 3)) \<noteq> 0"
    "disconnect (driver (mem ex_hub 3)) \<noteq> 0"
    "fd (mem ex_hub 3) \<noteq> - 1"
    "min_len (mem ex_hub 3) \<le> max_len (mem ex_hub 3)"
    by (simp_all add: ex_hub_def ex_transfer_def)
  have m: "mem ex_hub 3 = ex_transfer" by (simp add: ex_hub_def)
  have h: "transfer_hash ex_hub = []" by (simp add: ex_hub_def)
  have dl: "timeout_deadline (op_timeout ex_transfer) \<lparr>tv_sec = 2147483647, tv_usec = 0\<rparr>
              = \<lparr>tv_sec = 2147483648, tv_usec = 500000\<rparr>"
    by (simp add: timeout_deadline_def ex_transfer_def util_timeval_add_def timeout_timeval_def)
  have ot: "op_timeout ex_transfer \<noteq> 0" by (simp add: ex_transfer_def)
  show ?thesis
    unfolding add_result [OF pre] m h ex_hub_late_def using dl ot by simp
qed

lemma ex_resolve_late:
  "resolve_transfer ex_env_late {3} {} 3 (mem ex_hub_late 3) =
   ([DriverCall 3 1 3 4096 10],
    Inr (True, (mem ex_hub_late 3)\<lparr>trans_len := 4, status := KMO_COMM_TRANS_COMPLETED,
                  deadline := \<lparr>tv_sec = 2147483648, tv_usec = 601000\<rparr>\<rparr>))"
  by (simp add: resolve_transfer_def ex_mem_late ex_transfer_def ex_env_late_def Let_def
        timeout_deadline_def timeout_timeval_def util_timeval_add_def)

lemma ex_wait_late:
  "map_option fst (kmo_transfer_hub_wait [ex_env_late] ex_hub_late) =
     Some [Select 4 {3} {} \<lparr>tv_sec = 0, tv_usec = 1000\<rparr>, DriverCall 3 1 3 4096 10]"
proof -
  have nd: "\<not> done_flag (scan_hub ex_hub_late)" by (simp add: ex_scan_late)
  have sr: "select_ret ex_env_late = SelectReady {3} {}" by (simp add: ex_env_late_def)
  have rr: "ready_read ex_env_late ex_hub_late = {3}" "ready_write ex_env_late ex_hub_late = {}"
    by (simp_all add: ready_read_def ready_write_def sr ex_scan_late)
  show ?thesis
    unfolding wait_first_pass [OF nd sr] rr ex_select_late
    by (simp add: ex_scan_late ex_resolve_late)
qed




text \<open>
  C4 on the code, at an input where the two part. The transfer at \<open>3\<close> is registered, with a
  timeout of 1.5 seconds, when the clock reads 2147483647 seconds, so its deadline is
  2147483648.5 seconds. It is the only selected transfer. By C4, and by the comment of
  \<^verbatim>\<open>kmo_transfer_hub_wait\<close> (the time to wait is determined by the deadlines of the pending
  transfers), a call a tenth of a second later blocks for 1.4 seconds. In the code the
  scan's minimum stays at its starting value of 2147483647 seconds, which is already past,
  the branch for a deadline that is passed or too short is taken, and \<^verbatim>\<open>select()\<close> is given
  one millisecond.
\<close>

theorem select_wait_past_sentinel:
  "kmo_transfer_hub_add \<lparr>tv_sec = 2147483647, tv_usec = 0\<rparr> 3 ex_hub = Inr ex_hub_late \<and>
   transfer_array (scan_hub ex_hub_late) = [3] \<and>
   selected_deadlines ex_hub_late = {2147483648500000} \<and>
   tv_usecs (now_before ex_env_late) = 2147483647100000 \<and>
   spec_wait_usecs (tv_usecs (now_before ex_env_late)) (selected_deadlines ex_hub_late) = 1400000 \<and>
   map_option fst (kmo_transfer_hub_wait [ex_env_late] ex_hub_late) =
     Some [Select 4 {3} {} \<lparr>tv_sec = 0, tv_usec = 1000\<rparr>, DriverCall 3 1 3 4096 10] \<and>
   tv_usecs \<lparr>tv_sec = 0, tv_usec = 1000\<rparr> = 1000"
proof -
  have a: "transfer_array (scan_hub ex_hub_late) = [3]" by (simp add: ex_scan_late)
  have b: "tv_usecs (now_before ex_env_late) = 2147483647100000"
    by (simp add: ex_env_late_def tv_usecs_def)
  have c: "spec_wait_usecs (tv_usecs (now_before ex_env_late)) (selected_deadlines ex_hub_late)
             = 1400000"
    unfolding b ex_selected_late by (simp add: spec_wait_usecs_def)
  have d: "tv_usecs \<lparr>tv_sec = 0, tv_usec = 1000\<rparr> = 1000" by (simp add: tv_usecs_def)
  from ex_add_late a ex_selected_late b c ex_wait_late d show ?thesis by blast
qed









































end
